theory Spec2Isabelle
  imports Main "HOL-Library.Word" "HOL-Library.Multiset"
begin

section \<open>Boards, moves and puzzle states\<close>

text \<open>
  \<^verbatim>\<open>typedef std::array<char, 16> Board\<close>: a board is a list of characters; the theorems
  assume the length 16 that the C++ type enforces. Cell \<open>i\<close> is row \<open>i div 4\<close>, column
  \<open>i mod 4\<close>.
\<close>

type_synonym Board = "char list"

text \<open>\<^verbatim>\<open>Move::type_t\<close>, the enumerators in their order 0 to 4.\<close>

datatype type_t = LEFT | UP | RIGHT | DOWN | UNKNOWN

text \<open>
  \<^verbatim>\<open>class PuzzleState\<close>: the cached hash, the board and the shared pointer to the parent
  (empty for the root). States are never mutated, so the pointer is the parent's value.
\<close>

datatype PuzzleState =
  PuzzleState (getHash: "64 word") (getState: Board) (getParent: "PuzzleState option")

text \<open>
  What the model reports where the C++ program has no defined result: the
  \<^verbatim>\<open>assert(false)\<close> of the \<^verbatim>\<open>default\<close> branch, and an array index past the end.
\<close>

datatype error = AssertFailed | OutOfBounds

text \<open>
  \<^verbatim>\<open>make_hash\<close> is \<^verbatim>\<open>std::hash<std::string>\<close> of the 16 cells, a function of the standard
  library with \<^verbatim>\<open>size_t\<close> (64-bit) results that the repository does not define. Every
  function below takes it as the parameter \<open>make_hash\<close>. The two constructors compute
  the hash once and store it.
\<close>

definition root_state :: "(Board \<Rightarrow> 64 word) \<Rightarrow> Board \<Rightarrow> PuzzleState" where
  "root_state make_hash state = PuzzleState (make_hash state) state None"

definition child_state :: "(Board \<Rightarrow> 64 word) \<Rightarrow> PuzzleState \<Rightarrow> Board \<Rightarrow> PuzzleState" where
  "child_state make_hash parent state = PuzzleState (make_hash state) state (Some parent)"

text \<open>
  \<^verbatim>\<open>std::find(state.begin(), state.end(), c) - state.begin()\<close>: the index of the first
  cell holding \<open>c\<close>, and the length of the board when no cell holds it.
\<close>

fun std_find :: "Board \<Rightarrow> char \<Rightarrow> nat" where
  "std_find [] c = 0"
| "std_find (x # xs) c = (if x = c then 0 else Suc (std_find xs c))"

text \<open>\<^verbatim>\<open>std::swap(state[index], state[newIndex])\<close>, for two indices inside the board.\<close>

definition std_swap :: "Board \<Rightarrow> nat \<Rightarrow> nat \<Rightarrow> Board" where
  "std_swap state i j = (state[i := state ! j])[j := state ! i]"

section \<open>The move generator\<close>

text \<open>
  The \<^verbatim>\<open>switch\<close> of \<^verbatim>\<open>make_next_state\<close>: \<open>Inr None\<close> is the early return of the empty
  pointer, \<open>Inr (Some (x, y))\<close> the column and row after the move. The indices are
  \<^verbatim>\<open>size_t\<close>; every decrement is guarded by the test against 0 and every value stays far
  below \<open>2 ^ 64\<close>, so natural numbers compute the same values.
\<close>

fun switch_move :: "type_t \<Rightarrow> nat \<Rightarrow> nat \<Rightarrow> error + (nat \<times> nat) option" where
  "switch_move LEFT x y = (if x = 0 then Inr None else Inr (Some (x - 1, y)))"
| "switch_move RIGHT x y = (if x = 3 then Inr None else Inr (Some (x + 1, y)))"
| "switch_move UP x y = (if y = 0 then Inr None else Inr (Some (x, y - 1)))"
| "switch_move DOWN x y = (if y = 3 then Inr None else Inr (Some (x, y + 1)))"
| "switch_move UNKNOWN x y = Inl AssertFailed"

text \<open>
  Lines 136 to 171 of \<^verbatim>\<open>make_next_state\<close>: the copy of the parent's board with the agent
  moved, \<open>Inr None\<close> for a move off the grid. A board with no agent gives index 16, and
  then every move but \<^verbatim>\<open>LEFT\<close> reads a cell past the end of the array.
\<close>

definition moved_board :: "Board \<Rightarrow> type_t \<Rightarrow> error + Board option" where
  "moved_board state move =
     (let index = std_find state (CHR ''*'');
          x = index mod 4;
          y = index div 4
      in case switch_move move x y of
           Inl e \<Rightarrow> Inl e
         | Inr None \<Rightarrow> Inr None
         | Inr (Some (x', y')) \<Rightarrow>
             (let newIndex = y' * 4 + x'
              in if index < length state \<and> newIndex < length state
                 then Inr (Some (std_swap state index newIndex))
                 else Inl OutOfBounds))"

text \<open>
  The \<^verbatim>\<open>do ... while (ansector = ansector->getParent())\<close> loop: does \<open>hash\<close> equal the
  cached hash of \<open>ansector\<close> or of one of its ancestors?
\<close>

fun hash_on_chain :: "64 word \<Rightarrow> PuzzleState \<Rightarrow> bool" where
  "hash_on_chain hash (PuzzleState h b None) = (hash = h)"
| "hash_on_chain hash (PuzzleState h b (Some p)) = (hash = h \<or> hash_on_chain hash p)"

text \<open>
  Lines 172 to 184: the walk starts at \<^verbatim>\<open>parent->getParent()\<close> when there is one; a
  match returns the empty pointer, otherwise the new state is built.
\<close>

definition make_next_state ::
  "(Board \<Rightarrow> 64 word) \<Rightarrow> PuzzleState \<Rightarrow> type_t \<Rightarrow> error + PuzzleState option" where
  "make_next_state make_hash parent move =
     (case moved_board (getState parent) move of
        Inl e \<Rightarrow> Inl e
      | Inr None \<Rightarrow> Inr None
      | Inr (Some state) \<Rightarrow>
          (let hash = make_hash state
           in if (case getParent parent of
                    None \<Rightarrow> False
                  | Some ansector \<Rightarrow> hash_on_chain hash ansector)
              then Inr None
              else Inr (Some (child_state make_hash parent state))))"

section \<open>Breadth-first search\<close>

text \<open>What one pass of the inner \<^verbatim>\<open>for\<close> loop leaves: a returned state, or the frontier.\<close>

datatype 'q outcome = Return PuzzleState | Continue 'q

text \<open>
  The loop \<^verbatim>\<open>for (int m = 0; m < 4; ++m)\<close> with \<^verbatim>\<open>static_cast<Move::type_t>(m)\<close> runs
  over the first four enumerators in order.
\<close>

definition moves :: "type_t list" where
  "moves = [LEFT, UP, RIGHT, DOWN]"

text \<open>
  The deque \<^verbatim>\<open>search\<close> is a list whose head is the front: \<^verbatim>\<open>push_front\<close> is \<open>#\<close>,
  \<^verbatim>\<open>back\<close> is \<open>last\<close> and \<^verbatim>\<open>pop_back\<close> is \<open>butlast\<close>.
\<close>

fun bfs_for ::
  "(Board \<Rightarrow> 64 word) \<Rightarrow> 64 word \<Rightarrow> PuzzleState \<Rightarrow> type_t list \<Rightarrow> PuzzleState list
     \<Rightarrow> error + PuzzleState list outcome" where
  "bfs_for make_hash goalHash parent [] search = Inr (Continue search)"
| "bfs_for make_hash goalHash parent (m # ms) search =
     (case make_next_state make_hash parent m of
        Inl e \<Rightarrow> Inl e
      | Inr None \<Rightarrow> bfs_for make_hash goalHash parent ms search
      | Inr (Some next) \<Rightarrow>
          if getHash next = goalHash then Inr (Return next)
          else bfs_for make_hash goalHash parent ms (next # search))"

text \<open>
  \<^verbatim>\<open>while (!search.empty())\<close>. The loop need not end, so the result is an option:
  \<open>None\<close> is a run that never returns, \<open>Some (Inr None)\<close> the empty pointer returned
  after the loop. The counter \<^verbatim>\<open>attempts\<close> is written and never read; it is left out.
\<close>

partial_function (option) bfs_while ::
  "(Board \<Rightarrow> 64 word) \<Rightarrow> 64 word \<Rightarrow> PuzzleState list \<Rightarrow> (error + PuzzleState option) option"
where
  "bfs_while make_hash goalHash search =
     (if search = [] then Some (Inr None)
      else case bfs_for make_hash goalHash (last search) moves (butlast search) of
             Inl e \<Rightarrow> Some (Inl e)
           | Inr (Return next) \<Rightarrow> Some (Inr (Some next))
           | Inr (Continue search') \<Rightarrow> bfs_while make_hash goalHash search')"

definition breadthFirst ::
  "(Board \<Rightarrow> 64 word) \<Rightarrow> Board \<Rightarrow> Board \<Rightarrow> (error + PuzzleState option) option" where
  "breadthFirst make_hash start goal =
     (let goalHash = make_hash goal;
          startState = root_state make_hash start
      in if getHash startState = goalHash then Some (Inr (Some startState))
         else bfs_while make_hash goalHash [startState])"

section \<open>The heuristic score\<close>

text \<open>
  \<^verbatim>\<open>ret += std::abs(indexP - i)\<close>. The difference of the two \<^verbatim>\<open>size_t\<close> values is
  computed first, in 64 bits, and wraps around when \<open>indexP < i\<close>. \<^verbatim>\<open>std::abs\<close> has no
  overload for an unsigned argument, and no rule of the language selects the \<^verbatim>\<open>long\<close>
  overload for it: with the C++11 headers of the compiler that the file names
  (\<^verbatim>\<open>g++ -std=c++11\<close>) an integer argument of any other type goes to the overload that
  converts it to \<^verbatim>\<open>double\<close> (later versions of the library reject the call as
  ambiguous). The statement therefore adds in \<^verbatim>\<open>double\<close> and converts the sum back to
  \<^verbatim>\<open>unsigned\<close> (32 bits). The conversion is defined when the sum is below \<open>2 ^ 32\<close>;
  both operands are then exact in \<^verbatim>\<open>double\<close> and the statement adds the difference. A
  wrapped difference is at least \<open>2 ^ 64 - 16\<close>: the sum is outside the range of
  \<^verbatim>\<open>unsigned\<close> and the language leaves the conversion undefined. The value that the
  machine then leaves in \<^verbatim>\<open>ret\<close> is the parameter \<open>out_of_range\<close>.
\<close>

definition add_abs ::
  "(32 word \<Rightarrow> 64 word \<Rightarrow> 32 word) \<Rightarrow> 32 word \<Rightarrow> 64 word \<Rightarrow> 32 word" where
  "add_abs out_of_range ret d =
     (if unat ret + unat d < 2 ^ 32 then ret + ucast d else out_of_range ret d)"

text \<open>The body of the loop over \<open>i\<close>, for the indices still to visit.\<close>

fun calc_score_for ::
  "(32 word \<Rightarrow> 64 word \<Rightarrow> 32 word) \<Rightarrow> Board \<Rightarrow> Board \<Rightarrow> nat list \<Rightarrow> 32 word \<Rightarrow> 32 word"
where
  "calc_score_for out_of_range state goal [] ret = ret"
| "calc_score_for out_of_range state goal (i # rest) ret =
     (let c = goal ! i
      in if state ! i \<noteq> c
         then (let indexP = std_find state c
               in calc_score_for out_of_range state goal rest
                    (add_abs out_of_range ret ((of_nat indexP :: 64 word) - of_nat i)))
         else calc_score_for out_of_range state goal rest ret)"

definition calc_score ::
  "(32 word \<Rightarrow> 64 word \<Rightarrow> 32 word) \<Rightarrow> PuzzleState \<Rightarrow> Board \<Rightarrow> 32 word" where
  "calc_score out_of_range puzzle goal =
     calc_score_for out_of_range (getState puzzle) goal [0..<length goal] 0"

section \<open>A* search\<close>

type_synonym PuzzleAndScore = "PuzzleState \<times> 32 word"

text \<open>\<^verbatim>\<open>struct Comp\<close>: the unsigned comparison of the scores.\<close>

definition Comp :: "PuzzleAndScore \<Rightarrow> PuzzleAndScore \<Rightarrow> bool" where
  "Comp lhs rhs = (snd lhs > snd rhs)"

text \<open>
  \<^verbatim>\<open>std::priority_queue\<close> keeps a vector \<open>c\<close>, and the standard defines its operations
  by the heap algorithms: \<^verbatim>\<open>push(x)\<close> is \<^verbatim>\<open>c.push_back(x); push_heap(c)\<close>, \<^verbatim>\<open>top()\<close> is
  \<^verbatim>\<open>c.front()\<close> and \<^verbatim>\<open>pop()\<close> is \<^verbatim>\<open>pop_heap(c); c.pop_back()\<close>. The two algorithms
  belong to the standard library and decide how ties are broken; the model takes them
  as the parameters \<open>push_heap\<close> and \<open>pop_heap\<close>. A vector is a heap when no element
  compares \<^verbatim>\<open>Comp\<close>-below its child.
\<close>

definition is_heap :: "PuzzleAndScore list \<Rightarrow> bool" where
  "is_heap v = list_all (\<lambda>i. \<not> Comp (v ! ((i - 1) div 2)) (v ! i)) [1..<length v]"

text \<open>
  The standard's contract of the two algorithms: both rearrange the vector;
  \<^verbatim>\<open>push_heap\<close> sifts the last element into the heap before it, \<^verbatim>\<open>pop_heap\<close> moves the
  first element to the end and leaves a heap before it.
\<close>

definition heap_algorithms ::
  "(PuzzleAndScore list \<Rightarrow> PuzzleAndScore list)
     \<Rightarrow> (PuzzleAndScore list \<Rightarrow> PuzzleAndScore list) \<Rightarrow> bool" where
  "heap_algorithms push_heap pop_heap =
     (\<forall>v. v \<noteq> [] \<longrightarrow>
        mset (push_heap v) = mset v \<and>
        (is_heap (butlast v) \<longrightarrow> is_heap (push_heap v)) \<and>
        mset (pop_heap v) = mset v \<and>
        last (pop_heap v) = hd v \<and>
        (is_heap v \<longrightarrow> is_heap (butlast (pop_heap v))))"

definition pq_push ::
  "(PuzzleAndScore list \<Rightarrow> PuzzleAndScore list) \<Rightarrow> PuzzleAndScore
     \<Rightarrow> PuzzleAndScore list \<Rightarrow> PuzzleAndScore list" where
  "pq_push push_heap x c = push_heap (c @ [x])"

definition pq_pop ::
  "(PuzzleAndScore list \<Rightarrow> PuzzleAndScore list) \<Rightarrow> PuzzleAndScore list
     \<Rightarrow> PuzzleAndScore list" where
  "pq_pop pop_heap c = butlast (pop_heap c)"

fun astar_for ::
  "(Board \<Rightarrow> 64 word) \<Rightarrow> (32 word \<Rightarrow> 64 word \<Rightarrow> 32 word)
     \<Rightarrow> (PuzzleAndScore list \<Rightarrow> PuzzleAndScore list) \<Rightarrow> Board \<Rightarrow> 64 word
     \<Rightarrow> PuzzleState \<Rightarrow> type_t list \<Rightarrow> PuzzleAndScore list
     \<Rightarrow> error + PuzzleAndScore list outcome" where
  "astar_for make_hash out_of_range push_heap goal goalHash parent [] search =
     Inr (Continue search)"
| "astar_for make_hash out_of_range push_heap goal goalHash parent (m # ms) search =
     (case make_next_state make_hash parent m of
        Inl e \<Rightarrow> Inl e
      | Inr None \<Rightarrow> astar_for make_hash out_of_range push_heap goal goalHash parent ms search
      | Inr (Some next) \<Rightarrow>
          if getHash next = goalHash then Inr (Return next)
          else astar_for make_hash out_of_range push_heap goal goalHash parent ms
                 (pq_push push_heap (next, calc_score out_of_range next goal) search))"

partial_function (option) astar_while ::
  "(Board \<Rightarrow> 64 word) \<Rightarrow> (32 word \<Rightarrow> 64 word \<Rightarrow> 32 word)
     \<Rightarrow> (PuzzleAndScore list \<Rightarrow> PuzzleAndScore list)
     \<Rightarrow> (PuzzleAndScore list \<Rightarrow> PuzzleAndScore list) \<Rightarrow> Board \<Rightarrow> 64 word
     \<Rightarrow> PuzzleAndScore list \<Rightarrow> (error + PuzzleState option) option"
where
  "astar_while make_hash out_of_range push_heap pop_heap goal goalHash search =
     (if search = [] then Some (Inr None)
      else case astar_for make_hash out_of_range push_heap goal goalHash (fst (hd search))
                  moves (pq_pop pop_heap search) of
             Inl e \<Rightarrow> Some (Inl e)
           | Inr (Return next) \<Rightarrow> Some (Inr (Some next))
           | Inr (Continue search') \<Rightarrow>
               astar_while make_hash out_of_range push_heap pop_heap goal goalHash search')"

definition aStar ::
  "(Board \<Rightarrow> 64 word) \<Rightarrow> (32 word \<Rightarrow> 64 word \<Rightarrow> 32 word)
     \<Rightarrow> (PuzzleAndScore list \<Rightarrow> PuzzleAndScore list)
     \<Rightarrow> (PuzzleAndScore list \<Rightarrow> PuzzleAndScore list) \<Rightarrow> Board \<Rightarrow> Board
     \<Rightarrow> (error + PuzzleState option) option" where
  "aStar make_hash out_of_range push_heap pop_heap start goal =
     (let goalHash = make_hash goal;
          startState = root_state make_hash start
      in if getHash startState = goalHash then Some (Inr (Some startState))
         else astar_while make_hash out_of_range push_heap pop_heap goal goalHash
                (pq_push push_heap (startState, calc_score out_of_range startState goal) []))"

section \<open>Printing the solution\<close>

text \<open>
  \<^verbatim>\<open>do { solution.push_back(stage); } while (stage = stage->getParent());\<close> collects the
  returned state and its ancestors, the root last.
\<close>

fun solution :: "PuzzleState \<Rightarrow> PuzzleState list" where
  "solution (PuzzleState h b None) = [PuzzleState h b None]"
| "solution (PuzzleState h b (Some p)) = PuzzleState h b (Some p) # solution p"

text \<open>
  \<^verbatim>\<open>print_search\<close> writes the boards of the collected states from \<^verbatim>\<open>rbegin\<close> to
  \<^verbatim>\<open>rend\<close>, or \<^verbatim>\<open>Failed\<close> for the empty pointer. The model keeps the boards in the order
  they are written.
\<close>

datatype printed = Finish "Board list" | Failed

definition print_search :: "PuzzleState option \<Rightarrow> printed" where
  "print_search finish =
     (case finish of
        Some stage \<Rightarrow> Finish (map getState (rev (solution stage)))
      | None \<Rightarrow> Failed)"

section \<open>Notions of the specification\<close>

text \<open>The board invariant: 16 cells, exactly one of them the agent marker.\<close>

definition valid_board :: "Board \<Rightarrow> bool" where
  "valid_board b = (length b = 16 \<and> count_list b (CHR ''*'') = 1)"

text \<open>
  In the specification's words: the move from cell \<open>i\<close> leaves the grid when the agent
  is in the first or last column (left, right) or row (up, down); otherwise the target is
  the neighbouring cell in that direction.
\<close>

fun off_grid :: "type_t \<Rightarrow> nat \<Rightarrow> bool" where
  "off_grid LEFT i = (i mod 4 = 0)"
| "off_grid RIGHT i = (i mod 4 = 3)"
| "off_grid UP i = (i div 4 = 0)"
| "off_grid DOWN i = (i div 4 = 3)"
| "off_grid UNKNOWN i = False"

fun target_cell :: "type_t \<Rightarrow> nat \<Rightarrow> nat" where
  "target_cell LEFT i = i - 1"
| "target_cell RIGHT i = i + 1"
| "target_cell UP i = i - 4"
| "target_cell DOWN i = i + 4"
| "target_cell UNKNOWN i = i"

text \<open>
  In the specification's words, the term of the score for goal cell \<open>i\<close>: when the
  state's symbol differs from the goal's, the absolute difference between the index of
  the goal's symbol in the state's board and \<open>i\<close>.
\<close>

definition score_term :: "Board \<Rightarrow> Board \<Rightarrow> nat \<Rightarrow> nat" where
  "score_term state goal i =
     (if state ! i \<noteq> goal ! i then nat \<bar>int (std_find state (goal ! i)) - int i\<bar> else 0)"

text \<open>The states an ancestor walk visits when it starts at the given pointer.\<close>

definition walk_from :: "PuzzleState option \<Rightarrow> PuzzleState list" where
  "walk_from start = (case start of None \<Rightarrow> [] | Some a \<Rightarrow> solution a)"

text \<open>The number of predecessor links from a state back to the root.\<close>

definition move_count :: "PuzzleState \<Rightarrow> nat" where
  "move_count s = length (solution s) - 1"

text \<open>
  The states the move generator can produce from the root of a start board, by any
  sequence of moves.
\<close>

inductive generated :: "(Board \<Rightarrow> 64 word) \<Rightarrow> Board \<Rightarrow> PuzzleState \<Rightarrow> bool"
  for make_hash :: "Board \<Rightarrow> 64 word" and start :: Board where
  root: "generated make_hash start (root_state make_hash start)"
| step: "generated make_hash start s \<Longrightarrow> make_next_state make_hash s m = Inr (Some c)
           \<Longrightarrow> generated make_hash start c"

text \<open>The states the move generator can produce below a state, by one move or more.\<close>

inductive descends :: "(Board \<Rightarrow> 64 word) \<Rightarrow> PuzzleState \<Rightarrow> PuzzleState \<Rightarrow> bool"
  for make_hash :: "Board \<Rightarrow> 64 word" and p :: PuzzleState where
  child: "make_next_state make_hash p m = Inr (Some c) \<Longrightarrow> descends make_hash p c"
| step: "descends make_hash p s \<Longrightarrow> make_next_state make_hash s m = Inr (Some c)
           \<Longrightarrow> descends make_hash p c"

text \<open>
  The boards one agent move away from a board, and the boards exactly \<open>n\<close> moves away
  (with repetitions): the puzzle's move graph, without any cycle check.
\<close>

definition next_boards :: "Board \<Rightarrow> Board list" where
  "next_boards b =
     List.map_filter (\<lambda>m. case moved_board b m of Inr (Some b') \<Rightarrow> Some b' | _ \<Rightarrow> None) moves"

fun boards_after :: "nat \<Rightarrow> Board \<Rightarrow> Board list" where
  "boards_after 0 start = [start]"
| "boards_after (Suc n) start = concat (map next_boards (boards_after n start))"

text \<open>
  The search tree: the successors of a state for a list of moves, in the order of the
  moves, and the states \<open>n\<close> moves below the root, from left to right.
\<close>

fun successors :: "(Board \<Rightarrow> 64 word) \<Rightarrow> PuzzleState \<Rightarrow> type_t list \<Rightarrow> PuzzleState list" where
  "successors make_hash p [] = []"
| "successors make_hash p (m # ms) =
     (case make_next_state make_hash p m of
        Inr (Some c) \<Rightarrow> c # successors make_hash p ms
      | _ \<Rightarrow> successors make_hash p ms)"

fun level :: "(Board \<Rightarrow> 64 word) \<Rightarrow> Board \<Rightarrow> nat \<Rightarrow> PuzzleState list" where
  "level make_hash start 0 = [root_state make_hash start]"
| "level make_hash start (Suc n) =
     concat (map (\<lambda>p. successors make_hash p moves) (level make_hash start n))"


definition goal_hash_unique :: "(Board \<Rightarrow> 64 word) \<Rightarrow> Board \<Rightarrow> Board \<Rightarrow> bool" where
  "goal_hash_unique make_hash start goal =
     (\<forall>b. mset b = mset start \<longrightarrow> make_hash b = make_hash goal \<longrightarrow> b = goal)"

section \<open>Sample hash functions and heap algorithms\<close>

text \<open>
  Concrete runs need concrete library functions. \<open>nibble_hash\<close> packs the low four bits
  of each of the 16 cells into the 64 bits of the result, so it has no collision among
  boards over an alphabet whose characters differ in their low four bits (such as blank,
  \<open>*\<close>, \<open>a\<close>, \<open>b\<close>, \<open>c\<close>). \<open>sum_hash\<close> adds the character codes, so it
  collides on any two rearrangements of a board.
\<close>

definition nibble_hash :: "Board \<Rightarrow> 64 word" where
  "nibble_hash b = foldl (\<lambda>h c. h * 16 + of_nat (of_char c mod 16)) 0 b"

definition sum_hash :: "Board \<Rightarrow> 64 word" where
  "sum_hash b = foldl (\<lambda>h c. h + of_nat (of_char c)) 0 b"

text \<open>
  Heap algorithms that keep the vector sorted by ascending score: a sorted vector is a
  heap for \<^verbatim>\<open>Comp\<close>.
\<close>

definition sort_push_heap :: "PuzzleAndScore list \<Rightarrow> PuzzleAndScore list" where
  "sort_push_heap v = sort_key snd v"

definition sort_pop_heap :: "PuzzleAndScore list \<Rightarrow> PuzzleAndScore list" where
  "sort_pop_heap v = (case v of [] \<Rightarrow> [] | x # xs \<Rightarrow> sort_key snd xs @ [x])"

text \<open>
  Concrete runs of the A* searcher also need a value for the undefined conversion of the
  scorer: \<open>zero_conversion\<close> leaves 0 in \<^verbatim>\<open>ret\<close>.
\<close>

definition zero_conversion :: "32 word \<Rightarrow> 64 word \<Rightarrow> 32 word" where
  "zero_conversion ret d = 0"

section \<open>Invariants of the search\<close>

text \<open>
  What holds of every state the move generator produces from a start board: each state
  on its chain caches the hash of its own board, each board is a rearrangement of the
  start board, no board occurs twice on the chain, and the chain ends in the root.
\<close>

definition chain_inv :: "(Board \<Rightarrow> 64 word) \<Rightarrow> Board \<Rightarrow> PuzzleState \<Rightarrow> bool" where
  "chain_inv make_hash start s =
     ((\<forall>a \<in> set (solution s). getHash a = make_hash (getState a)
          \<and> mset (getState a) = mset start)
      \<and> distinct (map getState (solution s))
      \<and> last (solution s) = root_state make_hash start)"

text \<open>
  The measure that decreases with every pass of the A* loop: a state whose chain has
  length \<open>l\<close> weighs \<open>5 ^ (N - l)\<close>, more than its at most four successors together.
\<close>

definition frontier_weight :: "nat \<Rightarrow> PuzzleState multiset \<Rightarrow> nat" where
  "frontier_weight N S = (\<Sum>s \<in># S. 5 ^ (N - length (solution s)))"

section \<open>Sample boards and states\<close>

text \<open>The start board and the goal board that \<^verbatim>\<open>main\<close> runs the search on.\<close>

definition main_start :: Board where
  "main_start = ''a   *    b c    ''"

definition main_goal :: Board where
  "main_goal = ''abc*            ''"

text \<open>Two sample boards, one move to the right apart.\<close>

definition board_a :: Board where
  "board_a = ''*a              ''"

definition board_b :: Board where
  "board_b = ''a*              ''"

text \<open>A goal board with a block label that \<open>board_a\<close> does not have.\<close>

definition board_c :: Board where
  "board_c = ''*b              ''"

text \<open>
  \<open>pos_hash\<close> looks at the position of the agent only, and gives the positions 0, 2
  and 8 to 15 the same hash.
\<close>

definition pos_hash :: "Board \<Rightarrow> 64 word" where
  "pos_hash b = (let i = std_find b (CHR ''*'') in if i = 2 \<or> 8 \<le> i then 0 else of_nat i)"

text \<open>
  A board that is no rearrangement of \<open>board_a\<close> and has the same sum of character
  codes (\<open>A\<close> and \<open>@\<close> for \<open>a\<close> and a blank).
\<close>

definition board_d :: Board where
  "board_d = ''*A@             ''"

text \<open>
  A goal board with the agent where \<open>board_b\<close> has it, and a block label that
  \<open>board_a\<close> does not have.
\<close>

definition board_g :: Board where
  "board_g = ''b*              ''"

text \<open>Two boards with the agent alone, in the first and in the fourth cell of the first row.\<close>

definition board_e :: Board where
  "board_e = ''*               ''"

definition board_f :: Board where
  "board_f = ''   *            ''"

text \<open>
  The board with the agent in the first cell, followed by the characters of a set in
  some order: for a set of 15 characters other than the agent marker it is a board with
  exactly one agent marker.
\<close>

definition agent_then :: "char set \<Rightarrow> Board" where
  "agent_then S = CHR ''*'' # (SOME xs. set xs = S \<and> distinct xs)"

text \<open>The state reached from a state by a list of moves, with no cycle check.\<close>

fun follow_moves :: "(Board \<Rightarrow> 64 word) \<Rightarrow> PuzzleState \<Rightarrow> type_t list \<Rightarrow> PuzzleState" where
  "follow_moves make_hash s [] = s"
| "follow_moves make_hash s (m # ms) =
     (case moved_board (getState s) m of
        Inr (Some b) \<Rightarrow> follow_moves make_hash (child_state make_hash s b) ms
      | _ \<Rightarrow> s)"

text \<open>The state reached from the root of \<open>board_a\<close> by the move to the right.\<close>

definition state_b :: PuzzleState where
  "state_b = child_state nibble_hash (root_state nibble_hash board_a) board_b"

section \<open>The move generator: basic facts\<close>


lemma std_find_less_iff: "std_find b c < length b \<longleftrightarrow> c \<in> set b"
  by (induction b) auto

lemma nth_std_find: "c \<in> set b \<Longrightarrow> b ! std_find b c = c"
  by (induction b) auto

lemma std_find_first: "j < std_find b c \<Longrightarrow> b ! j \<noteq> c"
  by (induction b arbitrary: j) (auto simp: nth_Cons split: nat.splits if_splits)


lemma count_one_unique:
  "count_list b c = 1 \<Longrightarrow> i < length b \<Longrightarrow> j < length b \<Longrightarrow> b ! i = c \<Longrightarrow> b ! j = c
     \<Longrightarrow> i = j"
proof (induction b arbitrary: i j)
  case Nil
  then show ?case by simp
next
  case (Cons x xs)
  show ?case
  proof (cases "x = c")
    case True
    with Cons.prems(1) have "count_list xs c = 0" by simp
    then have notin: "c \<notin> set xs" by (simp add: count_list_0_iff)
    have "i = 0" using Cons.prems(2,4) notin by (cases i) auto
    moreover have "j = 0" using Cons.prems(3,5) notin by (cases j) auto
    ultimately show ?thesis by simp
  next
    case False
    with Cons.prems obtain i' j' where "i = Suc i'" "j = Suc j'"
      by (cases i; cases j) auto
    with Cons False show ?thesis by auto
  qed
qed

lemma valid_board_agent: "valid_board b \<Longrightarrow> std_find b (CHR ''*'') < 16"
  unfolding valid_board_def
  by (metis count_list_0_iff std_find_less_iff zero_neq_one)

lemma length_std_swap [simp]: "length (std_swap b i j) = length b"
  by (simp add: std_swap_def)

lemma mset_std_swap: "i < length b \<Longrightarrow> j < length b \<Longrightarrow> mset (std_swap b i j) = mset b"
  unfolding std_swap_def by (metis mset_swap)

lemma idx_left: "i mod 4 \<noteq> 0 \<Longrightarrow> i div 4 * 4 + (i mod 4 - 1) = i - (1::nat)"
  by presburger

lemma idx_right: "i div 4 * 4 + (i mod 4 + 1) = i + (1::nat)"
  by presburger

lemma idx_up: "0 < i div 4 \<Longrightarrow> (i div 4 - Suc 0) * 4 + i mod 4 = i - (4::nat)"
  by presburger

lemma idx_down: "(i div 4 + 1) * 4 + i mod 4 = i + (4::nat)"
  by presburger

lemma target_cell_bound: "i < 16 \<Longrightarrow> \<not> off_grid m i \<Longrightarrow> target_cell m i < 16"
  by (cases m; simp; presburger)

lemma target_cell_neq: "m \<noteq> UNKNOWN \<Longrightarrow> \<not> off_grid m i \<Longrightarrow> target_cell m i \<noteq> i"
  by (cases m; simp; presburger)

lemma moved_board_valid:
  assumes "valid_board b" "m \<noteq> UNKNOWN"
  shows "moved_board b m =
     (if off_grid m (std_find b (CHR ''*'')) then Inr None
      else Inr (Some (std_swap b (std_find b (CHR ''*''))
                        (target_cell m (std_find b (CHR ''*''))))))"
proof -
  let ?i = "std_find b (CHR ''*'')"
  have i: "?i < 16" using assms(1) by (rule valid_board_agent)
  have len: "length b = 16" using assms(1) by (simp add: valid_board_def)
  have t: "\<not> off_grid m ?i \<Longrightarrow> target_cell m ?i < 16"
    using i by (rule target_cell_bound)
  show ?thesis
  proof (cases m)
    case LEFT
    then show ?thesis using i len t by (simp add: moved_board_def Let_def idx_left)
  next
    case UP
    then show ?thesis using i len t by (simp add: moved_board_def Let_def idx_up)
  next
    case RIGHT
    then show ?thesis using i len t by (simp add: moved_board_def Let_def idx_right)
  next
    case DOWN
    then show ?thesis using i len t by (simp add: moved_board_def Let_def idx_down)
  next
    case UNKNOWN
    then show ?thesis using assms(2) by simp
  qed
qed

lemma hash_on_chain_iff: "hash_on_chain h a \<longleftrightarrow> h \<in> getHash ` set (solution a)"
  by (induction h a rule: hash_on_chain.induct) auto

lemma walk_rejects_iff:
  "(case p of None \<Rightarrow> False | Some ansector \<Rightarrow> hash_on_chain h ansector)
     \<longleftrightarrow> (\<exists>a \<in> set (walk_from p). getHash a = h)"
  by (cases p) (auto simp: walk_from_def hash_on_chain_iff)

lemma make_next_state_valid:
  assumes "valid_board (getState s)" "m \<noteq> UNKNOWN"
  shows "make_next_state make_hash s m =
     (if off_grid m (std_find (getState s) (CHR ''*'')) then Inr None
      else if \<exists>a \<in> set (walk_from (getParent s)).
                getHash a = make_hash (std_swap (getState s) (std_find (getState s) (CHR ''*''))
                        (target_cell m (std_find (getState s) (CHR ''*''))))
           then Inr None
           else Inr (Some (child_state make_hash s
                  (std_swap (getState s) (std_find (getState s) (CHR ''*''))
                        (target_cell m (std_find (getState s) (CHR ''*'')))))))"
  unfolding make_next_state_def moved_board_valid [OF assms] walk_rejects_iff
  by (simp add: Let_def)


lemma count_list_mset_eq: "mset xs = mset ys \<Longrightarrow> count_list xs c = count_list ys c"
  by (metis count_mset)

lemma valid_board_swap:
  assumes "valid_board b" "i < 16" "j < 16"
  shows "valid_board (std_swap b i j)"
proof -
  have "mset (std_swap b i j) = mset b"
    using assms by (simp add: mset_std_swap valid_board_def)
  then have "count_list (std_swap b i j) (CHR ''*'') = count_list b (CHR ''*'')"
    by (rule count_list_mset_eq)
  then show ?thesis using assms(1) by (simp add: valid_board_def)
qed

lemma valid_board_has_agent: "valid_board b \<Longrightarrow> CHR ''*'' \<in> set b"
  using valid_board_agent [of b] std_find_less_iff [of b "CHR ''*''"]
  by (simp add: valid_board_def)

lemma std_swap_agent:
  assumes "valid_board b"
  shows "std_swap b (std_find b (CHR ''*'')) t
           = (b[std_find b (CHR ''*'') := b ! t])[t := CHR ''*'']"
  using valid_board_has_agent [OF assms] by (simp add: std_swap_def nth_std_find)


lemma std_swap_changes:
  assumes "valid_board b" "t < 16" "t \<noteq> std_find b (CHR ''*'')"
  shows "std_swap b (std_find b (CHR ''*'')) t \<noteq> b"
proof
  let ?i = "std_find b (CHR ''*'')"
  assume eq: "std_swap b ?i t = b"
  have len: "length b = 16" and cnt: "count_list b (CHR ''*'') = 1"
    using assms(1) by (simp_all add: valid_board_def)
  have i: "?i < length b" using valid_board_agent [OF assms(1)] len by simp
  have t: "t < length b" using assms(2) len by simp
  have bi: "b ! ?i = CHR ''*''"
    using valid_board_has_agent [OF assms(1)] by (rule nth_std_find)
  have "std_swap b ?i t ! t = b ! ?i"
    using t by (simp add: std_swap_def)
  with eq bi have bt: "b ! t = CHR ''*''" by simp
  have "t = ?i" using cnt t i bt bi by (rule count_one_unique)
  with assms(3) show False by simp
qed

lemma solution_unfold: "solution s = s # walk_from (getParent s)"
proof (cases s)
  case (PuzzleState h b p)
  then show ?thesis by (cases p) (simp_all add: walk_from_def)
qed

lemma solution_child [simp]:
  "solution (child_state make_hash p b) = child_state make_hash p b # solution p"
  by (simp add: child_state_def)

lemma solution_root [simp]:
  "solution (root_state make_hash b) = [root_state make_hash b]"
  by (simp add: root_state_def)

lemma moved_board_Some:
  assumes "moved_board b m = Inr (Some b')"
  shows "mset b' = mset b"
proof -
  obtain i j where "i < length b" "j < length b" "b' = std_swap b i j"
    using assms
    by (auto simp: moved_board_def Let_def split: sum.splits option.splits if_splits)
  then show ?thesis by (simp add: mset_std_swap)
qed

lemma make_next_state_Some:
  assumes "make_next_state make_hash s m = Inr (Some c)"
  shows "\<exists>b'. moved_board (getState s) m = Inr (Some b') \<and> c = child_state make_hash s b'
           \<and> (\<forall>a \<in> set (walk_from (getParent s)). getHash a \<noteq> make_hash b')"
  using assms unfolding make_next_state_def walk_rejects_iff Let_def
  by (auto split: sum.splits option.splits if_splits)

lemma valid_board_mset:
  "valid_board b \<Longrightarrow> mset b' = mset b \<Longrightarrow> valid_board b'"
  unfolding valid_board_def
  using count_list_mset_eq [of b' b "CHR ''*''"] mset_eq_length [of b' b] by simp

lemma moved_board_changes:
  assumes "valid_board b" "moved_board b m = Inr (Some b')"
  shows "b' \<noteq> b"
proof -
  have m: "m \<noteq> UNKNOWN" using assms(2) by (auto simp: moved_board_def)
  let ?i = "std_find b (CHR ''*'')"
  from assms(2) have og: "\<not> off_grid m ?i" and b': "b' = std_swap b ?i (target_cell m ?i)"
    unfolding moved_board_valid [OF assms(1) m] by (auto split: if_splits)
  have "target_cell m ?i < 16"
    using valid_board_agent [OF assms(1)] og by (rule target_cell_bound)
  moreover have "target_cell m ?i \<noteq> ?i" using m og by (rule target_cell_neq)
  ultimately show ?thesis unfolding b' using assms(1) by (intro std_swap_changes)
qed

lemma chain_inv_root: "chain_inv make_hash start (root_state make_hash start)"
  by (simp add: chain_inv_def) (simp add: root_state_def)

lemma chain_inv_step:
  assumes v: "valid_board start" and inv: "chain_inv make_hash start s"
    and nxt: "make_next_state make_hash s m = Inr (Some c)"
  shows "chain_inv make_hash start c"
proof -
  obtain b' where mb: "moved_board (getState s) m = Inr (Some b')"
    and c: "c = child_state make_hash s b'"
    and nohash: "\<forall>a \<in> set (walk_from (getParent s)). getHash a \<noteq> make_hash b'"
    using make_next_state_Some [OF nxt] by blast
  have s_in: "s \<in> set (solution s)" by (subst solution_unfold) simp
  have ms: "mset (getState s) = mset start" using inv s_in by (simp add: chain_inv_def)
  have vs: "valid_board (getState s)" using v ms by (rule valid_board_mset)
  have mb': "mset b' = mset start" using moved_board_Some [OF mb] ms by simp
  have ne: "b' \<noteq> getState s" using vs mb by (rule moved_board_changes)
  have "b' \<noteq> getState a" if "a \<in> set (walk_from (getParent s))" for a
  proof -
    have "a \<in> set (solution s)" using that by (subst solution_unfold) simp
    then have "getHash a = make_hash (getState a)" using inv by (simp add: chain_inv_def)
    with nohash that show ?thesis by auto
  qed
  with ne have fresh: "b' \<notin> getState ` set (solution s)"
    by (subst solution_unfold) auto
  have sol: "solution c = c # solution s" by (simp add: c)
  have nonempty: "solution s \<noteq> []" by (subst solution_unfold) simp
  show ?thesis
    unfolding chain_inv_def sol
    using inv fresh mb' nonempty
    by (auto simp: chain_inv_def c child_state_def)
qed

lemma generated_chain_inv:
  assumes "generated make_hash start s" and "valid_board start"
  shows "chain_inv make_hash start s"
  using assms by (induction rule: generated.induct) (auto intro: chain_inv_root chain_inv_step)

lemma make_next_state_cases:
  assumes "valid_board (getState s)" and "m \<in> set moves"
  shows "let b = getState s; i = std_find b (CHR ''*''); t = target_cell m i;
             b' = (b[i := b ! t])[t := CHR ''*'']
         in if off_grid m i then make_next_state make_hash s m = Inr None
            else make_next_state make_hash s m =
                   (if \<exists>a \<in> set (walk_from (getParent s)). getHash a = make_hash b'
                    then Inr None
                    else Inr (Some (PuzzleState (make_hash b') b' (Some s))))"
proof -
  have m: "m \<noteq> UNKNOWN" using assms(2) by (auto simp: moves_def)
  show ?thesis
    unfolding Let_def make_next_state_valid [OF assms(1) m] std_swap_agent [OF assms(1)]
    by (simp add: child_state_def)
qed

text \<open>
  Claim C5. For a state whose board holds exactly one agent marker and a direction among
  left, up, right and down, the move generator never reports an error and its result is
  determined as follows. A move off the grid returns the empty pointer. A move on the grid
  returns the empty pointer when it is cycle-rejected, that is when the hash of the new
  board is the cached hash of a state on the walk from the state's predecessor, and in
  every other case it returns the new state: its board is the state's board with the
  agent cell and the target cell swapped, its predecessor is the state, and it caches
  the hash of its board.
\<close>

theorem move_generator_outcomes:
  assumes "valid_board (getState s)" and "m \<in> set moves"
  shows "let b = getState s; i = std_find b (CHR ''*''); t = target_cell m i;
             b' = (b[i := b ! t])[t := b ! i]
         in make_next_state make_hash s m =
              (if off_grid m i then Inr None
               else if \<exists>a \<in> set (walk_from (getParent s)). getHash a = make_hash b'
                    then Inr None
                    else Inr (Some (PuzzleState (make_hash b') b' (Some s))))"
proof -
  have m: "m \<noteq> UNKNOWN" using assms(2) by (auto simp: moves_def)
  show ?thesis
    unfolding Let_def make_next_state_valid [OF assms(1) m] std_swap_def
    by (simp add: child_state_def)
qed

theorem move_generator_outcomes_witness:
  "valid_board (getState state_b) \<and> UP \<in> set moves \<and> LEFT \<in> set moves \<and> DOWN \<in> set moves
   \<and> off_grid UP (std_find (getState state_b) (CHR ''*''))
   \<and> make_next_state nibble_hash state_b UP = Inr None
   \<and> \<not> off_grid LEFT (std_find (getState state_b) (CHR ''*''))
   \<and> walk_from (getParent state_b) = [root_state nibble_hash board_a]
   \<and> make_next_state nibble_hash state_b LEFT = Inr None
   \<and> \<not> off_grid DOWN (std_find (getState state_b) (CHR ''*''))
   \<and> make_next_state nibble_hash state_b DOWN
       = Inr (Some (PuzzleState (nibble_hash ''a    *          '') ''a    *          ''
                      (Some state_b)))"
proof -
  have v: "valid_board (getState state_b)"
    by (simp add: valid_board_def state_b_def child_state_def board_b_def)
  have u: "UP \<in> set moves" and l: "LEFT \<in> set moves" and d: "DOWN \<in> set moves"
    by (simp_all add: moves_def)
  have w: "walk_from (getParent state_b) = [root_state nibble_hash board_a]"
    by (simp add: state_b_def child_state_def root_state_def walk_from_def)
  have up: "make_next_state nibble_hash state_b UP = Inr None"
    using move_generator_outcomes [OF v u, of nibble_hash]
    by (simp add: state_b_def child_state_def board_b_def Let_def)
  have left: "make_next_state nibble_hash state_b LEFT = Inr None"
    using move_generator_outcomes [OF v l, of nibble_hash]
    by (simp add: w Let_def)
      (simp add: state_b_def child_state_def root_state_def board_a_def board_b_def)
  have down: "make_next_state nibble_hash state_b DOWN
       = Inr (Some (PuzzleState (nibble_hash ''a    *          '') ''a    *          ''
                      (Some state_b)))"
    using move_generator_outcomes [OF v d, of nibble_hash]
    by (simp add: w Let_def)
      (simp add: state_b_def child_state_def root_state_def board_a_def board_b_def
        nibble_hash_def)
  have g: "off_grid UP (std_find (getState state_b) (CHR ''*''))
     \<and> \<not> off_grid LEFT (std_find (getState state_b) (CHR ''*''))
     \<and> \<not> off_grid DOWN (std_find (getState state_b) (CHR ''*''))"
    by (simp add: state_b_def child_state_def board_b_def)
  from v u l d w up left down g show ?thesis by simp
qed

lemma make_next_state_mset:
  assumes "make_next_state make_hash s m = Inr (Some c)"
  shows "mset (getState c) = mset (getState s)"
proof -
  obtain b' where "moved_board (getState s) m = Inr (Some b')" "c = child_state make_hash s b'"
    using make_next_state_Some [OF assms] by blast
  then show ?thesis using moved_board_Some [of "getState s" m b'] by (simp add: child_state_def)
qed

text \<open>
  Claim C4, as amended. For a board with exactly one agent marker and a move that stays
  on the grid, the cycle-rejection walk starts at the expanded state's predecessor (it
  skips only the expanded state itself), and the move is rejected exactly when the hash
  of the new board equals the cached hash of a state visited by that walk.
\<close>

theorem cycle_walk_from_predecessor:
  assumes "valid_board (getState s)" and "m \<in> set moves"
    and "\<not> off_grid m (std_find (getState s) (CHR ''*''))"
  shows "let b = getState s; i = std_find b (CHR ''*''); t = target_cell m i;
             b' = (b[i := b ! t])[t := CHR ''*'']
         in make_next_state make_hash s m = Inr None \<longleftrightarrow>
              (\<exists>a \<in> set (walk_from (getParent s)). getHash a = make_hash b')"
  using make_next_state_cases [OF assms(1,2), of make_hash] assms(3)
  unfolding Let_def by (simp split: if_splits)

theorem cycle_walk_from_predecessor_witness:
  "valid_board (getState state_b) \<and> LEFT \<in> set moves
   \<and> \<not> off_grid LEFT (std_find (getState state_b) (CHR ''*''))
   \<and> walk_from (getParent state_b) = [root_state nibble_hash board_a]
   \<and> getHash (root_state nibble_hash board_a) = nibble_hash board_a
   \<and> make_next_state nibble_hash state_b LEFT = Inr None"
proof -
  have v: "valid_board (getState state_b)"
    by (simp add: valid_board_def state_b_def child_state_def board_b_def)
  have l: "LEFT \<in> set moves" by (simp add: moves_def)
  have g: "\<not> off_grid LEFT (std_find (getState state_b) (CHR ''*''))"
    by (simp add: state_b_def child_state_def board_b_def)
  show ?thesis
    using v l g cycle_walk_from_predecessor [OF v l g, of nibble_hash]
    by (simp add: state_b_def child_state_def root_state_def board_a_def board_b_def
        walk_from_def Let_def)
qed

text \<open>
  Claim C4 as stated fails: \<open>state_b\<close> has a predecessor and no predecessor's
  predecessor, so a walk starting there visits no state, and yet the move to the left,
  which stays on the grid and recreates the board of the predecessor, is rejected.
\<close>

theorem predecessors_predecessor_counterexample:
  "valid_board (getState state_b) \<and> LEFT \<in> set moves
   \<and> \<not> off_grid LEFT (std_find (getState state_b) (CHR ''*''))
   \<and> walk_from (Option.bind (getParent state_b) getParent) = []
   \<and> make_next_state nibble_hash state_b LEFT = Inr None"
  by (simp add: state_b_def child_state_def root_state_def board_a_def board_b_def
      walk_from_def valid_board_def moves_def make_next_state_def moved_board_def std_swap_def)

section \<open>The heuristic score: what it computes\<close>

lemma ucast_of_nat_down: "(ucast (of_nat k :: 64 word) :: 32 word) = of_nat k"
  by transfer simp

lemma add_abs_defined:
  assumes "i \<le> indexP" "indexP \<le> 16" "unat ret + (indexP - i) < 2 ^ 32"
  shows "add_abs out_of_range ret ((of_nat indexP :: 64 word) - of_nat i)
           = ret + of_nat (indexP - i)"
proof -
  have eq: "(of_nat indexP :: 64 word) - of_nat i = of_nat (indexP - i)"
    using assms(1) by simp
  have u: "unat (of_nat (indexP - i) :: 64 word) = indexP - i"
    using assms(2) by (simp add: unat_of_nat)
  show ?thesis
    unfolding eq add_abs_def u using assms(3) by (simp add: ucast_of_nat_down)
qed

lemma unat_small: "k \<le> 16 \<Longrightarrow> unat (of_nat k :: 64 word) = k"
  by (simp add: unat_of_nat)

lemma unat_opposite:
  assumes "(d :: 64 word) + e = 0" "0 < unat e" "unat e \<le> 16"
  shows "2 ^ 32 \<le> unat d"
proof (rule ccontr)
  assume "\<not> 2 ^ 32 \<le> unat d"
  then have small: "unat d + unat e < 2 ^ 64" using assms(3) by simp
  have "unat (d + e) = (unat d + unat e) mod 2 ^ 64" by (simp add: unat_word_ariths)
  also have "\<dots> = unat d + unat e" using small by simp
  finally have "unat (d + e) \<noteq> 0" using assms(2) by simp
  with assms(1) show False by simp
qed

lemma unat_wrapped:
  assumes "indexP < i" "i \<le> 16"
  shows "2 ^ 32 \<le> unat ((of_nat indexP :: 64 word) - of_nat i)"
proof -
  have k: "unat (of_nat (i - indexP) :: 64 word) = i - indexP"
    using assms(2) by (intro unat_small) simp
  have "(of_nat indexP :: 64 word) - of_nat i + of_nat (i - indexP) = 0"
    using assms(1) by simp
  moreover have "0 < unat (of_nat (i - indexP) :: 64 word)"
    unfolding k using assms(1) by simp
  moreover have "unat (of_nat (i - indexP) :: 64 word) \<le> 16"
    unfolding k using assms(2) by simp
  ultimately show ?thesis by (rule unat_opposite)
qed

lemma add_abs_wrapped:
  assumes "indexP < i" "i \<le> 16"
  shows "add_abs out_of_range ret ((of_nat indexP :: 64 word) - of_nat i)
           = out_of_range ret ((of_nat indexP :: 64 word) - of_nat i)"
  using unat_wrapped [OF assms] by (simp add: add_abs_def)








lemma upt_16: "[0..<16] = [0, 1, 2, 3, 4, 5, 6, 7, 8, 9, 10, 11, 12, 13, 14, 15::nat]"
  by (simp add: upt_rec)

text \<open>
  Claim C6 does not hold of the code. The claim is what the statement attempts (its
  comment reads \<^verbatim>\<open>Manhattan Distance\<close>), and the code computes it as long as every
  displaced goal symbol is found at or after its goal cell (lemma \<open>calc_score_unat\<close>).
  On the boards of \<^verbatim>\<open>main\<close> the goal's symbol for cell 4 is a blank, which the start
  board holds first in cell 1: \<^verbatim>\<open>indexP - i\<close> is taken before the absolute value and
  wraps around to \<open>2 ^ 64 - 3\<close>, the sum with the running total 18 is outside the range
  of \<^verbatim>\<open>unsigned\<close>, and the total becomes whatever the undefined conversion leaves; the
  same happens at the cells 9 and 11. The score is the result of the third undefined
  conversion (0 with \<open>zero_conversion\<close>), and the sum of the absolute differences is
  39. The smallest case is the state \<open>board_a\<close> with the goal \<open>board_b\<close>, where the
  sum is 2.
\<close>

theorem heuristic_score_wrapped_difference:
  "calc_score out_of_range (root_state make_hash main_start) main_goal
     = out_of_range (out_of_range (out_of_range 18 (- 3)) (- 8)) (- 10)
   \<and> calc_score zero_conversion (root_state make_hash main_start) main_goal = 0
   \<and> (\<Sum>i\<leftarrow>[0..<16]. score_term main_start main_goal i) = 39
   \<and> calc_score out_of_range (root_state make_hash board_a) board_b = out_of_range 1 (- 1)
   \<and> (\<Sum>i\<leftarrow>[0..<16]. score_term board_a board_b i) = 2"
proof -
  have run: "calc_score f (root_state make_hash main_start) main_goal
               = f (f (f 18 (- 3)) (- 8)) (- 10)" for f
    by (simp add: calc_score_def root_state_def main_start_def main_goal_def upt_16
        add_abs_def)
  have w: "add_abs f 1 ((of_nat 0 :: 64 word) - of_nat 1) = f 1 ((of_nat 0 :: 64 word) - of_nat 1)"
    for f
    by (rule add_abs_wrapped) simp_all
  have d: "add_abs f 0 ((of_nat 1 :: 64 word) - of_nat 0) = 0 + of_nat (1 - 0)" for f
    by (rule add_abs_defined) simp_all
  have small: "calc_score f (root_state make_hash board_a) board_b = f 1 (- 1)" for f
    using w [of f] d [of f]
    by (simp add: calc_score_def root_state_def board_a_def board_b_def upt_16)
  have "(\<Sum>i\<leftarrow>[0..<16]. score_term main_start main_goal i) = 39"
    by (simp add: score_term_def main_start_def main_goal_def upt_16)
  moreover have "(\<Sum>i\<leftarrow>[0..<16]. score_term board_a board_b i) = 2"
    by (simp add: score_term_def board_a_def board_b_def upt_16)
  ultimately show ?thesis
    using run [of out_of_range] run [of zero_conversion] small [of out_of_range]
    by (simp add: zero_conversion_def)
qed




section \<open>Breadth-first search: level by level\<close>

declare level.simps [simp del]

lemma level_0 [simp]: "level make_hash start 0 = [root_state make_hash start]"
  by (simp add: level.simps)

lemma level_Suc_mem:
  "s \<in> set (level make_hash start (Suc n)) \<longleftrightarrow>
     (\<exists>p \<in> set (level make_hash start n). s \<in> set (successors make_hash p moves))"
  by (auto simp: level.simps)

lemma make_next_state_no_error:
  assumes "valid_board (getState p)" "m \<in> set moves"
  shows "\<exists>r. make_next_state make_hash p m = Inr r"
proof -
  have "m \<noteq> UNKNOWN" using assms(2) by (auto simp: moves_def)
  from make_next_state_valid [OF assms(1) this, of make_hash] show ?thesis
    by (auto split: if_splits)
qed

lemma successors_mem:
  "c \<in> set (successors make_hash p ms)
     \<longleftrightarrow> (\<exists>m \<in> set ms. make_next_state make_hash p m = Inr (Some c))"
  by (induction ms) (auto split: sum.splits option.splits)

lemma bfs_for_eq:
  assumes "\<forall>m \<in> set ms. \<exists>r. make_next_state make_hash p m = Inr r"
  shows "bfs_for make_hash goalHash p ms search =
     (case find (\<lambda>c. getHash c = goalHash) (successors make_hash p ms) of
        Some c \<Rightarrow> Inr (Return c)
      | None \<Rightarrow> Inr (Continue (rev (successors make_hash p ms) @ search)))"
  using assms
proof (induction ms arbitrary: search)
  case Nil
  then show ?case by simp
next
  case (Cons m ms)
  then obtain r where r: "make_next_state make_hash p m = Inr r" by auto
  have rest: "\<forall>m \<in> set ms. \<exists>r. make_next_state make_hash p m = Inr r"
    using Cons.prems by simp
  show ?case
  proof (cases r)
    case None
    then show ?thesis using r Cons.IH [OF rest] by (simp cong: option.case_cong)
  next
    case (Some c)
    then show ?thesis using r Cons.IH [OF rest, of "c # search"]
      by (simp cong: option.case_cong)
  qed
qed

lemma bfs_while_step:
  assumes "valid_board (getState p)"
  shows "bfs_while make_hash goalHash (rev (p # rest)) =
     (case find (\<lambda>c. getHash c = goalHash) (successors make_hash p moves) of
        Some c \<Rightarrow> Some (Inr (Some c))
      | None \<Rightarrow> bfs_while make_hash goalHash (rev (rest @ successors make_hash p moves)))"
proof -
  have ne: "\<forall>m \<in> set moves. \<exists>r. make_next_state make_hash p m = Inr r"
    using assms by (auto intro: make_next_state_no_error)
  show ?thesis
    by (subst bfs_while.simps) (simp add: bfs_for_eq [OF ne] split: option.splits)
qed

lemma find_append_cases:
  "find P (xs @ ys) = (case find P xs of Some x \<Rightarrow> Some x | None \<Rightarrow> find P ys)"
  by (induction xs) auto

lemma bfs_while_front:
  assumes "\<forall>p \<in> set xs. valid_board (getState p)"
  shows "bfs_while make_hash goalHash (rev (xs @ ys)) =
     (case find (\<lambda>c. getHash c = goalHash)
             (concat (map (\<lambda>p. successors make_hash p moves) xs)) of
        Some c \<Rightarrow> Some (Inr (Some c))
      | None \<Rightarrow> bfs_while make_hash goalHash
                  (rev (ys @ concat (map (\<lambda>p. successors make_hash p moves) xs))))"
  using assms
proof (induction xs arbitrary: ys)
  case Nil
  then show ?case by simp
next
  case (Cons p xs)
  have vp: "valid_board (getState p)" and rest: "\<forall>p \<in> set xs. valid_board (getState p)"
    using Cons.prems by simp_all
  have eq: "rev ((p # xs) @ ys) = rev (p # (xs @ ys))" by simp
  show ?case
  proof (cases "find (\<lambda>c. getHash c = goalHash) (successors make_hash p moves)")
    case (Some c)
    then show ?thesis
      unfolding eq bfs_while_step [OF vp] by (simp add: find_append_cases)
  next
    case None
    have "bfs_while make_hash goalHash (rev (p # (xs @ ys)))
            = bfs_while make_hash goalHash (rev (xs @ (ys @ successors make_hash p moves)))"
      unfolding bfs_while_step [OF vp] using None by simp
    then show ?thesis
      unfolding eq Cons.IH [OF rest, of "ys @ successors make_hash p moves"]
      using None by (simp add: find_append_cases cong: option.case_cong)
  qed
qed

lemma bfs_while_level:
  assumes "\<forall>p \<in> set (level make_hash start n). valid_board (getState p)"
  shows "bfs_while make_hash goalHash (rev (level make_hash start n)) =
     (case find (\<lambda>c. getHash c = goalHash) (level make_hash start (Suc n)) of
        Some c \<Rightarrow> Some (Inr (Some c))
      | None \<Rightarrow> bfs_while make_hash goalHash (rev (level make_hash start (Suc n))))"
  using bfs_while_front [OF assms, of make_hash goalHash "[]"]
  by (simp add: level.simps split: option.splits)

lemma level_generated:
  "s \<in> set (level make_hash start n) \<Longrightarrow> generated make_hash start s"
proof (induction n arbitrary: s)
  case 0
  then show ?case by (simp add: generated.root)
next
  case (Suc n)
  then obtain p m where "p \<in> set (level make_hash start n)"
    "make_next_state make_hash p m = Inr (Some s)"
    by (auto simp: successors_mem level_Suc_mem)
  with Suc.IH show ?case by (blast intro: generated.step)
qed

lemma solution_next:
  assumes "make_next_state make_hash p m = Inr (Some c)"
  shows "solution c = c # solution p"
  using make_next_state_Some [OF assms] by auto

lemma level_length:
  "s \<in> set (level make_hash start n) \<Longrightarrow> length (solution s) = Suc n"
proof (induction n arbitrary: s)
  case 0
  then show ?case by simp
next
  case (Suc n)
  then obtain p m where p: "p \<in> set (level make_hash start n)"
    and m: "make_next_state make_hash p m = Inr (Some s)"
    by (auto simp: successors_mem level_Suc_mem)
  show ?case using Suc.IH [OF p] solution_next [OF m] by simp
qed

lemma generated_valid:
  assumes "generated make_hash start s" "valid_board start"
  shows "valid_board (getState s)"
proof -
  have "s \<in> set (solution s)" by (subst solution_unfold) simp
  then have "mset (getState s) = mset start"
    using generated_chain_inv [OF assms] by (simp add: chain_inv_def)
  with assms(2) show ?thesis by (rule valid_board_mset)
qed

lemma level_valid:
  "valid_board start \<Longrightarrow> \<forall>p \<in> set (level make_hash start n). valid_board (getState p)"
  by (blast intro: generated_valid level_generated)

lemma make_next_state_in_moves:
  assumes "make_next_state make_hash p m = Inr (Some c)"
  shows "m \<in> set moves"
proof -
  have "m \<noteq> UNKNOWN"
    using assms by (auto simp: make_next_state_def moved_board_def)
  then show ?thesis by (cases m) (simp_all add: moves_def)
qed

lemma generated_level:
  "generated make_hash start s \<Longrightarrow> s \<in> set (level make_hash start (move_count s))"
proof (induction rule: generated.induct)
  case root
  then show ?case by (simp add: move_count_def)
next
  case (step s m c)
  have "solution s \<noteq> []" by (subst solution_unfold) simp
  then have mc: "move_count c = Suc (move_count s)"
    using solution_next [OF step.hyps(2)] by (cases "solution s") (simp_all add: move_count_def)
  have "c \<in> set (successors make_hash s moves)"
    using step.hyps(2) make_next_state_in_moves [OF step.hyps(2)] by (auto simp: successors_mem)
  with step.IH show ?case unfolding mc level_Suc_mem by blast
qed

lemma chain_length_bound:
  assumes "generated make_hash start s" "valid_board start"
  shows "length (solution s) \<le> card {b. mset b = mset start}"
proof -
  have inv: "chain_inv make_hash start s" using assms by (rule generated_chain_inv)
  then have d: "distinct (map getState (solution s))" by (simp add: chain_inv_def)
  have sub: "set (map getState (solution s)) \<subseteq> {b. mset b = mset start}"
    using inv by (auto simp: chain_inv_def)
  have "length (solution s) = card (set (map getState (solution s)))"
    using distinct_card [OF d] by simp
  also have "\<dots> \<le> card {b. mset b = mset start}"
    using sub by (intro card_mono mset_eq_finite)
  finally show ?thesis .
qed

lemma level_empty:
  assumes "valid_board start" "card {b. mset b = mset start} \<le> n"
  shows "level make_hash start n = []"
proof (rule ccontr)
  assume "level make_hash start n \<noteq> []"
  then obtain s where s: "s \<in> set (level make_hash start n)" by (cases "level make_hash start n") auto
  have "length (solution s) \<le> card {b. mset b = mset start}"
    using level_generated [OF s] assms(1) by (rule chain_length_bound)
  with level_length [OF s] assms(2) show False by simp
qed

lemma bfs_while_to_level:
  assumes "valid_board start"
    and "\<forall>k \<le> n. \<forall>t \<in> set (level make_hash start k). getHash t \<noteq> goalHash"
  shows "bfs_while make_hash goalHash [root_state make_hash start]
           = bfs_while make_hash goalHash (rev (level make_hash start n))"
  using assms(2)
proof (induction n)
  case 0
  then show ?case by simp
next
  case (Suc n)
  have prev: "\<forall>k \<le> n. \<forall>t \<in> set (level make_hash start k). getHash t \<noteq> goalHash"
    using Suc.prems by (meson le_SucI)
  have "\<forall>t \<in> set (level make_hash start (Suc n)). getHash t \<noteq> goalHash"
    using Suc.prems by (meson order_refl)
  then have none: "find (\<lambda>c. getHash c = goalHash) (level make_hash start (Suc n)) = None"
    unfolding find_None_iff by blast
  show ?case
    unfolding Suc.IH [OF prev]
    using bfs_while_level [where n = n and goalHash = goalHash,
        OF level_valid [OF assms(1)]] none
    by simp
qed

lemma breadthFirst_result:
  assumes "valid_board start"
  shows "\<exists>r. breadthFirst make_hash start goal = Some (Inr r) \<and>
           (case r of
              None \<Rightarrow> \<forall>n. \<forall>t \<in> set (level make_hash start n). getHash t \<noteq> make_hash goal
            | Some s \<Rightarrow> \<exists>d. s \<in> set (level make_hash start d) \<and> getHash s = make_hash goal
                \<and> (\<forall>k < d. \<forall>t \<in> set (level make_hash start k). getHash t \<noteq> make_hash goal))"
proof (cases "\<exists>n. \<exists>t \<in> set (level make_hash start n). getHash t = make_hash goal")
  case True
  define d where "d = (LEAST n. \<exists>t \<in> set (level make_hash start n). getHash t = make_hash goal)"
  have Pd: "\<exists>t \<in> set (level make_hash start d). getHash t = make_hash goal"
    unfolding d_def using True by (rule LeastI_ex)
  have least: "\<forall>k < d. \<forall>t \<in> set (level make_hash start k). getHash t \<noteq> make_hash goal"
    unfolding d_def using not_less_Least by blast
  show ?thesis
  proof (cases d)
    case 0
    with Pd have "getHash (root_state make_hash start) = make_hash goal" by simp
    then have "breadthFirst make_hash start goal = Some (Inr (Some (root_state make_hash start)))"
      by (simp add: breadthFirst_def Let_def)
    moreover have "root_state make_hash start \<in> set (level make_hash start 0)" by simp
    ultimately show ?thesis using \<open>getHash (root_state make_hash start) = make_hash goal\<close>
      by (intro exI [of _ "Some (root_state make_hash start)"]) (auto intro!: exI [of _ 0])
  next
    case (Suc d')
    have below: "\<forall>k \<le> d'. \<forall>t \<in> set (level make_hash start k). getHash t \<noteq> make_hash goal"
      using least Suc by (meson less_Suc_eq_le)
    have "root_state make_hash start \<in> set (level make_hash start 0)" by simp
    with below have "getHash (root_state make_hash start) \<noteq> make_hash goal"
      by (meson le0)
    then have "breadthFirst make_hash start goal
                 = bfs_while make_hash (make_hash goal) [root_state make_hash start]"
      by (simp add: breadthFirst_def Let_def)
    also have "\<dots> = bfs_while make_hash (make_hash goal) (rev (level make_hash start d'))"
      using assms below by (rule bfs_while_to_level)
    finally have eq: "breadthFirst make_hash start goal =
        (case find (\<lambda>c. getHash c = make_hash goal) (level make_hash start (Suc d')) of
           Some c \<Rightarrow> Some (Inr (Some c))
         | None \<Rightarrow> bfs_while make_hash (make_hash goal) (rev (level make_hash start (Suc d'))))"
      using bfs_while_level [where n = d' and goalHash = "make_hash goal",
          OF level_valid [OF assms]]
      by simp
    obtain c where c: "find (\<lambda>c. getHash c = make_hash goal) (level make_hash start (Suc d')) = Some c"
      using Pd Suc by (cases "find (\<lambda>c. getHash c = make_hash goal) (level make_hash start (Suc d'))")
        (auto simp: find_None_iff)
    then have cin: "c \<in> set (level make_hash start d)" and ch: "getHash c = make_hash goal"
      using Suc by (auto simp: find_Some_iff)
    have "breadthFirst make_hash start goal = Some (Inr (Some c))"
      unfolding eq c by simp
    with cin ch least show ?thesis
      by (intro exI [of _ "Some c"]) auto
  qed
next
  case False
  define N where "N = card {b. mset b = mset start}"
  have all: "\<forall>n. \<forall>t \<in> set (level make_hash start n). getHash t \<noteq> make_hash goal"
    using False by blast
  moreover have "root_state make_hash start \<in> set (level make_hash start 0)" by simp
  ultimately have "getHash (root_state make_hash start) \<noteq> make_hash goal" by meson
  then have "breadthFirst make_hash start goal
               = bfs_while make_hash (make_hash goal) [root_state make_hash start]"
    by (simp add: breadthFirst_def Let_def)
  also have "\<dots> = bfs_while make_hash (make_hash goal) (rev (level make_hash start N))"
    using assms all by (intro bfs_while_to_level) auto
  also have "\<dots> = Some (Inr None)"
    using level_empty [OF assms, of N make_hash]
    by (subst bfs_while.simps) (simp add: N_def)
  finally show ?thesis using all by (intro exI [of _ None]) simp
qed

section \<open>A* search: termination and results\<close>

lemma mset_butlast: "xs \<noteq> [] \<Longrightarrow> add_mset (last xs) (mset (butlast xs)) = mset xs"
  by (induction xs) auto

lemma pq_push_mset:
  assumes "heap_algorithms push_heap pop_heap"
  shows "mset (pq_push push_heap x c) = add_mset x (mset c)"
  using assms by (simp add: heap_algorithms_def pq_push_def)

lemma pq_pop_mset:
  assumes "heap_algorithms push_heap pop_heap" "c \<noteq> []"
  shows "add_mset (hd c) (mset (pq_pop pop_heap c)) = mset c"
proof -
  have m: "mset (pop_heap c) = mset c" and l: "last (pop_heap c) = hd c"
    using assms by (simp_all add: heap_algorithms_def)
  from m assms(2) have ne: "pop_heap c \<noteq> []" by (metis mset_zero_iff)
  show ?thesis using mset_butlast [OF ne] m l by (simp add: pq_pop_def)
qed

lemma astar_for_result:
  assumes "heap_algorithms push_heap pop_heap"
    and "\<forall>m \<in> set ms. \<exists>r. make_next_state make_hash p m = Inr r"
  shows "\<exists>r. astar_for make_hash out_of_range push_heap goal goalHash p ms search = Inr r \<and>
           (case r of
              Return c \<Rightarrow> c \<in> set (successors make_hash p ms) \<and> getHash c = goalHash
            | Continue search' \<Rightarrow>
                mset (map fst search') = mset (map fst search) + mset (successors make_hash p ms))"
  using assms(2)
proof (induction ms arbitrary: search)
  case Nil
  then show ?case by simp
next
  case (Cons m ms)
  then obtain r where r: "make_next_state make_hash p m = Inr r" by auto
  have rest: "\<forall>m \<in> set ms. \<exists>r. make_next_state make_hash p m = Inr r"
    using Cons.prems by simp
  show ?case
  proof (cases r)
    case None
    then show ?thesis using r Cons.IH [OF rest, of search]
      by (simp cong: outcome.case_cong)
  next
    case (Some c)
    show ?thesis
    proof (cases "getHash c = goalHash")
      case True
      then show ?thesis using r Some by simp
    next
      case False
      obtain r' where r': "astar_for make_hash out_of_range push_heap goal goalHash p ms
            (pq_push push_heap (c, calc_score out_of_range c goal) search) = Inr r'"
        and c': "case r' of
              Return d \<Rightarrow> d \<in> set (successors make_hash p ms) \<and> getHash d = goalHash
            | Continue search' \<Rightarrow>
                mset (map fst search')
                  = mset (map fst (pq_push push_heap (c, calc_score out_of_range c goal) search))
                    + mset (successors make_hash p ms)"
        using Cons.IH [OF rest, of "pq_push push_heap (c, calc_score out_of_range c goal) search"] by blast
      have push: "mset (map fst (pq_push push_heap (c, calc_score out_of_range c goal) search))
                    = add_mset c (mset (map fst search))"
        using pq_push_mset [OF assms(1), of "(c, calc_score out_of_range c goal)" search]
        by (metis (no_types, lifting) fst_conv image_mset_add_mset mset_map)
      show ?thesis
        using r Some False r' c' push by (cases r') (simp_all cong: outcome.case_cong)
    qed
  qed
qed

lemma frontier_weight_list:
  "frontier_weight N (mset xs) = sum_list (map (\<lambda>s. 5 ^ (N - length (solution s))) xs)"
  by (induction xs) (simp_all add: frontier_weight_def)

lemma frontier_weight_add:
  "frontier_weight N (A + B) = frontier_weight N A + frontier_weight N B"
  by (simp add: frontier_weight_def)

lemma frontier_weight_add_mset:
  "frontier_weight N (add_mset s A) = 5 ^ (N - length (solution s)) + frontier_weight N A"
  by (simp add: frontier_weight_def)

lemma successors_length: "length (successors make_hash p ms) \<le> length ms"
  by (induction ms) (auto split: sum.splits option.splits)

lemma sum_list_const: "\<forall>x \<in> set xs. f x = (k::nat) \<Longrightarrow> sum_list (map f xs) = length xs * k"
  by (induction xs) auto

lemma successors_weight:
  assumes "generated make_hash start p" "valid_board start"
    and N: "N = card {b. mset b = mset start}"
  shows "frontier_weight N (mset (successors make_hash p moves))
           < 5 ^ (N - length (solution p))"
proof -
  let ?cs = "successors make_hash p moves"
  let ?k = "5 ^ (N - Suc (length (solution p))) :: nat"
  have each: "\<forall>c \<in> set ?cs. 5 ^ (N - length (solution c)) = ?k"
  proof
    fix c assume "c \<in> set ?cs"
    then obtain m where "make_next_state make_hash p m = Inr (Some c)"
      by (auto simp: successors_mem)
    then have "length (solution c) = Suc (length (solution p))"
      using solution_next by simp
    then show "5 ^ (N - length (solution c)) = ?k" by simp
  qed
  have w: "frontier_weight N (mset ?cs) = length ?cs * ?k"
    unfolding frontier_weight_list using each by (rule sum_list_const)
  have len: "length ?cs \<le> 4"
    using successors_length [of make_hash p moves] by (simp add: moves_def)
  show ?thesis
  proof (cases "?cs = []")
    case True
    then show ?thesis unfolding w by simp
  next
    case False
    then obtain c where c: "c \<in> set ?cs" by (cases ?cs) auto
    then obtain m where m: "make_next_state make_hash p m = Inr (Some c)"
      by (auto simp: successors_mem)
    have "generated make_hash start c" using assms(1) m by (rule generated.step)
    then have "length (solution c) \<le> N"
      unfolding N using assms(2) by (rule chain_length_bound)
    then have "Suc (length (solution p)) \<le> N" using solution_next [OF m] by simp
    then have "N - length (solution p) = Suc (N - Suc (length (solution p)))" by simp
    then have "(5::nat) ^ (N - length (solution p)) = 5 * ?k" by simp
    moreover have "length ?cs * ?k \<le> 4 * ?k" using len by simp
    moreover have "0 < ?k" by simp
    ultimately show ?thesis unfolding w by linarith
  qed
qed

lemma astar_for_continue:
  "astar_for make_hash out_of_range push_heap goal goalHash p ms search = Inr (Continue search')
     \<Longrightarrow> \<forall>c \<in> set (successors make_hash p ms). getHash c \<noteq> goalHash"
  by (induction ms arbitrary: search) (auto split: sum.splits option.splits if_splits)

lemma astar_for_return:
  assumes "\<forall>m \<in> set ms. \<exists>r. make_next_state make_hash p m = Inr r"
  shows "astar_for make_hash out_of_range push_heap goal goalHash p ms search = Inr (Return c)
           \<longleftrightarrow> find (\<lambda>c. getHash c = goalHash) (successors make_hash p ms) = Some c"
  using assms
proof (induction ms arbitrary: search)
  case Nil
  then show ?case by simp
next
  case (Cons m ms)
  then obtain r where r: "make_next_state make_hash p m = Inr r" by auto
  have rest: "\<forall>m \<in> set ms. \<exists>r. make_next_state make_hash p m = Inr r"
    using Cons.prems by simp
  show ?case
  proof (cases r)
    case None
    then show ?thesis using r Cons.IH [OF rest, of search] by simp
  next
    case (Some c')
    then show ?thesis
      using r Cons.IH [OF rest,
          of "pq_push push_heap (c', calc_score out_of_range c' goal) search"]
      by auto
  qed
qed

lemma descends_cases:
  "descends make_hash p c
     \<Longrightarrow> \<exists>k \<in> set (successors make_hash p moves). c = k \<or> descends make_hash k c"
proof (induction rule: descends.induct)
  case (child m c)
  then have "c \<in> set (successors make_hash p moves)"
    using make_next_state_in_moves [of make_hash p m c] by (auto simp: successors_mem)
  then show ?case by blast
next
  case (step s m c)
  then obtain k where k: "k \<in> set (successors make_hash p moves)"
    and sk: "s = k \<or> descends make_hash k s" by blast
  from sk have "descends make_hash k c"
    using step.hyps(2) by (auto intro: descends.child descends.step)
  with k show ?case by blast
qed

lemma generated_descends:
  "generated make_hash start s
     \<Longrightarrow> s = root_state make_hash start \<or> descends make_hash (root_state make_hash start) s"
  by (induction rule: generated.induct) (auto intro: descends.child descends.step)

lemma astar_while_result:
  assumes h: "heap_algorithms push_heap pop_heap" and v: "valid_board start"
    and inv: "\<forall>e \<in> set search. generated make_hash start (fst e)"
  shows "\<exists>r. astar_while make_hash out_of_range push_heap pop_heap goal goalHash search
                = Some (Inr r) \<and>
           (\<forall>s. r = Some s \<longrightarrow> generated make_hash start s \<and> getHash s = goalHash) \<and>
           (r = None \<longrightarrow> (\<forall>e \<in> set search. \<forall>c. descends make_hash (fst e) c
                             \<longrightarrow> getHash c \<noteq> goalHash))"
  using inv
proof (induction "frontier_weight (card {b. mset b = mset start}) (mset (map fst search))"
    arbitrary: search rule: less_induct)
  case less
  let ?N = "card {b. mset b = mset start}"
  show ?case
  proof (cases "search = []")
    case True
    then show ?thesis by (subst astar_while.simps) simp
  next
    case False
    let ?best = "fst (hd search)"
    let ?rest = "pq_pop pop_heap search"
    have pop: "add_mset (hd search) (mset ?rest) = mset search"
      using h False by (rule pq_pop_mset)
    have hd_in: "hd search \<in> set search" using False by simp
    then have gb: "generated make_hash start ?best" using less.prems by blast
    have vb: "valid_board (getState ?best)" using gb v by (rule generated_valid)
    have ne: "\<forall>m \<in> set moves. \<exists>r. make_next_state make_hash ?best m = Inr r"
      using vb by (auto intro: make_next_state_no_error)
    obtain r where r: "astar_for make_hash out_of_range push_heap goal goalHash ?best moves ?rest = Inr r"
      and rc: "case r of
              Return c \<Rightarrow> c \<in> set (successors make_hash ?best moves) \<and> getHash c = goalHash
            | Continue search' \<Rightarrow>
                mset (map fst search')
                  = mset (map fst ?rest) + mset (successors make_hash ?best moves)"
      using astar_for_result [OF h ne, of out_of_range goal goalHash ?rest] by blast
    have kids: "\<forall>c \<in> set (successors make_hash ?best moves). generated make_hash start c"
      using gb by (auto simp: successors_mem intro: generated.step)
    show ?thesis
    proof (cases r)
      case (Return c)
      then have "astar_while make_hash out_of_range push_heap pop_heap goal goalHash search
                   = Some (Inr (Some c))"
        using False r by (subst astar_while.simps) simp
      moreover have "generated make_hash start c" "getHash c = goalHash"
        using rc Return kids by auto
      ultimately show ?thesis by simp
    next
      case (Continue search')
      then have step: "astar_while make_hash out_of_range push_heap pop_heap goal goalHash search
                   = astar_while make_hash out_of_range push_heap pop_heap goal goalHash search'"
        using False r by (subst astar_while.simps) simp
      have ms': "mset (map fst search')
                  = mset (map fst ?rest) + mset (successors make_hash ?best moves)"
        using rc Continue by simp
      have ms: "mset (map fst search) = add_mset ?best (mset (map fst ?rest))"
        using pop by (metis image_mset_add_mset mset_map)
      have "set_mset (add_mset (hd search) (mset ?rest)) = set_mset (mset search)"
        using pop by simp
      then have rest_sub: "set ?rest \<subseteq> set search" by auto
      have inv': "\<forall>e \<in> set search'. generated make_hash start (fst e)"
      proof
        fix e assume "e \<in> set search'"
        then have "fst e \<in># mset (map fst search')" by simp
        then consider e' where "e' \<in> set ?rest" "fst e' = fst e"
          | "fst e \<in> set (successors make_hash ?best moves)"
          unfolding ms' by auto
        then show "generated make_hash start (fst e)"
        proof cases
          case 1
          then have "e' \<in> set search" using rest_sub by blast
          then show ?thesis using less.prems 1(2) by metis
        next
          case 2
          then show ?thesis using kids by blast
        qed
      qed
      have "frontier_weight ?N (mset (map fst search'))
              < frontier_weight ?N (mset (map fst search))"
        unfolding ms ms' frontier_weight_add frontier_weight_add_mset
        using successors_weight [OF gb v refl] by simp
      from less.hyps [OF this inv'] obtain r' where
        res: "astar_while make_hash out_of_range push_heap pop_heap goal goalHash search'
                = Some (Inr r')"
        and some: "\<forall>s. r' = Some s \<longrightarrow> generated make_hash start s \<and> getHash s = goalHash"
        and none: "r' = None \<longrightarrow> (\<forall>e \<in> set search'. \<forall>c. descends make_hash (fst e) c
                                     \<longrightarrow> getHash c \<noteq> goalHash)"
        by blast
      have below: "getHash c \<noteq> goalHash"
        if r': "r' = None" and k: "k \<in># mset (map fst search')" and d: "descends make_hash k c"
        for k c
      proof -
        from k obtain e' where "e' \<in> set search'" "fst e' = k" by auto
        with none r' d show ?thesis by blast
      qed
      have kids_hash: "\<forall>c \<in> set (successors make_hash ?best moves). getHash c \<noteq> goalHash"
        using r Continue by (auto dest: astar_for_continue)
      have "getHash c \<noteq> goalHash"
        if r': "r' = None" and e: "e \<in> set search" and d: "descends make_hash (fst e) c"
        for e c
      proof -
        have "fst e \<in># mset (map fst search)" using e by simp
        then consider "fst e = ?best" | "fst e \<in># mset (map fst ?rest)"
          unfolding ms by auto
        then show ?thesis
        proof cases
          case 1
          then obtain k where k: "k \<in> set (successors make_hash ?best moves)"
            and ck: "c = k \<or> descends make_hash k c"
            using descends_cases [of make_hash ?best c] d by auto
          have km: "k \<in># mset (map fst search')" unfolding ms' using k by simp
          from ck show ?thesis
          proof
            assume "c = k"
            with kids_hash k show ?thesis by blast
          next
            assume "descends make_hash k c"
            with r' km show ?thesis by (rule below)
          qed
        next
          case 2
          then have "fst e \<in># mset (map fst search')" unfolding ms' by simp
          with r' show ?thesis using d by (rule below)
        qed
      qed
      with res some show ?thesis unfolding step by blast
    qed
  qed
qed

lemma aStar_result:
  assumes h: "heap_algorithms push_heap pop_heap" and v: "valid_board start"
  shows "\<exists>r. aStar make_hash out_of_range push_heap pop_heap start goal = Some (Inr r) \<and>
           (\<forall>s. r = Some s \<longrightarrow> generated make_hash start s \<and> getHash s = make_hash goal)"
proof (cases "getHash (root_state make_hash start) = make_hash goal")
  case True
  then have "aStar make_hash out_of_range push_heap pop_heap start goal
               = Some (Inr (Some (root_state make_hash start)))"
    by (simp add: aStar_def Let_def)
  then show ?thesis using True by (simp add: generated.root)
next
  case False
  let ?q = "pq_push push_heap
              (root_state make_hash start, calc_score out_of_range (root_state make_hash start) goal) []"
  have "mset ?q = {#(root_state make_hash start,
                      calc_score out_of_range (root_state make_hash start) goal)#}"
    using pq_push_mset [OF h] by simp
  then have "set_mset (mset ?q) = {(root_state make_hash start,
                      calc_score out_of_range (root_state make_hash start) goal)}"
    by simp
  then have inv: "\<forall>e \<in> set ?q. generated make_hash start (fst e)"
    by (simp add: generated.root)
  have "aStar make_hash out_of_range push_heap pop_heap start goal
          = astar_while make_hash out_of_range push_heap pop_heap goal (make_hash goal) ?q"
    using False by (simp add: aStar_def Let_def)
  then show ?thesis
    using astar_while_result [OF h v inv, of out_of_range goal "make_hash goal"] by auto
qed

lemma aStar_None:
  assumes h: "heap_algorithms push_heap pop_heap" and v: "valid_board start"
    and none: "aStar make_hash out_of_range push_heap pop_heap start goal = Some (Inr None)"
    and g: "generated make_hash start c"
  shows "getHash c \<noteq> make_hash goal"
proof -
  let ?root = "root_state make_hash start"
  let ?q = "pq_push push_heap (?root, calc_score out_of_range ?root goal) []"
  have ne: "getHash ?root \<noteq> make_hash goal"
    using none by (auto simp: aStar_def Let_def)
  have "mset ?q = {#(?root, calc_score out_of_range ?root goal)#}"
    using pq_push_mset [OF h] by simp
  then have "set_mset (mset ?q) = {(?root, calc_score out_of_range ?root goal)}" by simp
  then have q: "set ?q = {(?root, calc_score out_of_range ?root goal)}" by simp
  have inv: "\<forall>e \<in> set ?q. generated make_hash start (fst e)"
    unfolding q by (simp add: generated.root)
  have "astar_while make_hash out_of_range push_heap pop_heap goal (make_hash goal) ?q
          = Some (Inr None)"
    using none ne by (simp add: aStar_def Let_def)
  then have "\<forall>e \<in> set ?q. \<forall>c. descends make_hash (fst e) c \<longrightarrow> getHash c \<noteq> make_hash goal"
    using astar_while_result [OF h v inv, of out_of_range goal "make_hash goal"] by auto
  then have below: "\<forall>c. descends make_hash ?root c \<longrightarrow> getHash c \<noteq> make_hash goal"
    unfolding q by simp
  from generated_descends [OF g] show ?thesis using ne below by blast
qed

lemma sorted_is_heap:
  assumes "sorted (map snd v)"
  shows "is_heap v"
proof -
  have "snd (v ! ((i - 1) div 2)) \<le> snd (v ! i)" if "i < length v" for i
  proof -
    have "(i - 1) div 2 \<le> i" by simp
    then have "map snd v ! ((i - 1) div 2) \<le> map snd v ! i"
      using assms that by (intro sorted_nth_mono) simp_all
    then show ?thesis using that by simp
  qed
  then have "\<not> snd (v ! i) < snd (v ! ((i - 1) div 2))" if "i < length v" for i
    using that by (simp add: not_less)
  then show ?thesis by (simp add: is_heap_def list_all_iff Comp_def)
qed

lemma sort_heap_algorithms: "heap_algorithms sort_push_heap sort_pop_heap"
  unfolding heap_algorithms_def
proof (intro allI impI conjI)
  fix v :: "PuzzleAndScore list"
  assume ne: "v \<noteq> []"
  show "mset (sort_push_heap v) = mset v" by (simp add: sort_push_heap_def)
  show "is_heap (sort_push_heap v)"
    by (simp add: sort_push_heap_def sorted_is_heap)
  show "mset (sort_pop_heap v) = mset v"
    using ne by (cases v) (simp_all add: sort_pop_heap_def)
  show "last (sort_pop_heap v) = hd v"
    using ne by (cases v) (simp_all add: sort_pop_heap_def)
  show "is_heap (butlast (sort_pop_heap v))"
    using ne by (cases v) (simp_all add: sort_pop_heap_def sorted_is_heap)
qed

text \<open>
  Claim C8. Whenever both searchers succeed on the same start and goal, the move count of
  the state the breadth-first searcher returns is at most the move count of the state
  the A* searcher returns. This holds for every hash function and for every pair of heap
  algorithms that meets the contract.
\<close>

theorem bfs_no_longer_than_astar:
  assumes "valid_board start" and "heap_algorithms push_heap pop_heap"
    and "breadthFirst make_hash start goal = Some (Inr (Some sb))"
    and "aStar make_hash out_of_range push_heap pop_heap start goal = Some (Inr (Some sa))"
  shows "move_count sb \<le> move_count sa"
proof -
  obtain d where sb: "sb \<in> set (level make_hash start d)"
    and least: "\<forall>k < d. \<forall>t \<in> set (level make_hash start k). getHash t \<noteq> make_hash goal"
    using breadthFirst_result [OF assms(1), of make_hash goal] assms(3) by auto
  have "generated make_hash start sa" and ha: "getHash sa = make_hash goal"
    using aStar_result [OF assms(2,1), of make_hash out_of_range goal] assms(4) by auto
  then have "sa \<in> set (level make_hash start (move_count sa))" by (simp add: generated_level)
  with least ha have "\<not> move_count sa < d" by blast
  moreover have "move_count sb = d" using level_length [OF sb] by (simp add: move_count_def)
  ultimately show ?thesis by simp
qed

lemma breadthFirst_a_b: "breadthFirst nibble_hash board_a board_b = Some (Inr (Some state_b))"
  by (simp add: breadthFirst_def bfs_while.simps moves_def make_next_state_def moved_board_def
      board_a_def board_b_def state_b_def root_state_def child_state_def std_swap_def
      nibble_hash_def)

lemma aStar_a_b:
  "aStar nibble_hash zero_conversion sort_push_heap sort_pop_heap board_a board_b = Some (Inr (Some state_b))"
  by (simp add: aStar_def astar_while.simps pq_push_def pq_pop_def sort_push_heap_def
      sort_pop_heap_def moves_def make_next_state_def moved_board_def
      board_a_def board_b_def state_b_def root_state_def child_state_def std_swap_def
      nibble_hash_def)

theorem bfs_no_longer_than_astar_witness:
  "valid_board board_a \<and> heap_algorithms sort_push_heap sort_pop_heap
   \<and> breadthFirst nibble_hash board_a board_b = Some (Inr (Some state_b))
   \<and> aStar nibble_hash zero_conversion sort_push_heap sort_pop_heap board_a board_b
        = Some (Inr (Some state_b))
   \<and> move_count state_b \<le> move_count state_b \<and> move_count state_b = 1"
proof -
  have v: "valid_board board_a" by (simp add: valid_board_def board_a_def)
  have "move_count state_b = 1"
    by (simp add: move_count_def state_b_def child_state_def root_state_def)
  then show ?thesis
    using v sort_heap_algorithms breadthFirst_a_b aStar_a_b
      bfs_no_longer_than_astar [OF v sort_heap_algorithms breadthFirst_a_b aStar_a_b]
    by simp
qed

section \<open>Shortest solutions\<close>

lemma map_filter_mem: "y \<in> set (List.map_filter f xs) \<longleftrightarrow> (\<exists>x \<in> set xs. f x = Some y)"
  by (induction xs) (auto simp: map_filter_simps split: option.splits)

lemma next_boards_mem:
  "b' \<in> set (next_boards b) \<longleftrightarrow> (\<exists>m \<in> set moves. moved_board b m = Inr (Some b'))"
proof -
  have "(case moved_board b m of Inr (Some b') \<Rightarrow> Some b' | _ \<Rightarrow> None) = Some b'
          \<longleftrightarrow> moved_board b m = Inr (Some b')" for m
    by (auto split: sum.splits option.splits)
  then show ?thesis unfolding next_boards_def map_filter_mem by simp
qed

lemma boards_after_Suc_mem:
  "b' \<in> set (boards_after (Suc n) start)
     \<longleftrightarrow> (\<exists>b \<in> set (boards_after n start). b' \<in> set (next_boards b))"
  by auto

lemma boards_after_mset: "b \<in> set (boards_after n start) \<Longrightarrow> mset b = mset start"
proof (induction n arbitrary: b)
  case 0
  then show ?case by simp
next
  case (Suc n)
  then obtain b0 m where "b0 \<in> set (boards_after n start)" "moved_board b0 m = Inr (Some b)"
    unfolding boards_after_Suc_mem next_boards_mem by blast
  then show ?case using Suc.IH moved_board_Some by metis
qed

lemma move_count_next:
  assumes "make_next_state make_hash p m = Inr (Some c)"
  shows "move_count c = Suc (move_count p)"
proof -
  have "solution p \<noteq> []" by (subst solution_unfold) simp
  then show ?thesis
    using solution_next [OF assms] by (cases "solution p") (simp_all add: move_count_def)
qed

lemma generated_boards_after:
  "generated make_hash start s \<Longrightarrow> getState s \<in> set (boards_after (move_count s) start)"
proof (induction rule: generated.induct)
  case root
  then show ?case by (simp add: move_count_def root_state_def)
next
  case (step s m c)
  obtain b' where mb: "moved_board (getState s) m = Inr (Some b')"
    and c: "c = child_state make_hash s b'"
    using make_next_state_Some [OF step.hyps(2)] by blast
  have "m \<in> set moves" using step.hyps(2) by (rule make_next_state_in_moves)
  with mb have "b' \<in> set (next_boards (getState s))" unfolding next_boards_mem by blast
  with step.IH have "b' \<in> set (boards_after (Suc (move_count s)) start)"
    unfolding boards_after_Suc_mem by blast
  then show ?case
    unfolding move_count_next [OF step.hyps(2)] by (simp add: c child_state_def)
qed


lemma generated_hash:
  assumes "generated make_hash start s" "valid_board start"
  shows "getHash s = make_hash (getState s)" "mset (getState s) = mset start"
proof -
  have "s \<in> set (solution s)" by (subst solution_unfold) simp
  then show "getHash s = make_hash (getState s)" "mset (getState s) = mset start"
    using generated_chain_inv [OF assms] by (simp_all add: chain_inv_def)
qed



lemma nibble_foldl_of_nat:
  "foldl (\<lambda>h c. h * 16 + of_nat (of_char c mod 16)) (of_nat h0 :: 64 word) b
     = of_nat (foldl (\<lambda>h c. h * 16 + of_char c mod 16) h0 b)"
proof (induction b arbitrary: h0)
  case Nil
  then show ?case by simp
next
  case (Cons c b)
  have "(of_nat h0 :: 64 word) * 16 + of_nat (of_char c mod 16)
          = of_nat (h0 * 16 + of_char c mod 16)" by simp
  then show ?case using Cons.IH [of "h0 * 16 + of_char c mod 16"] by simp
qed

lemma nibble_foldl_bound:
  "foldl (\<lambda>h c. h * 16 + of_char c mod 16) (h0::nat) b < (h0 + 1) * 16 ^ length b"
proof (induction b arbitrary: h0)
  case Nil
  then show ?case by simp
next
  case (Cons c b)
  have d: "(of_char c :: nat) mod 16 < 16" by simp
  have "foldl (\<lambda>h c. h * 16 + of_char c mod 16) (h0 * 16 + of_char c mod 16) b
          < (h0 * 16 + of_char c mod 16 + 1) * 16 ^ length b" by (rule Cons.IH)
  also have "\<dots> \<le> ((h0 + 1) * 16) * 16 ^ length b"
    using d by (intro mult_right_mono) simp_all
  finally show ?case by (simp add: algebra_simps)
qed

lemma digit_unique:
  assumes "a * 16 + x = b * 16 + y" "x < 16" "y < (16::nat)"
  shows "a = b \<and> x = y"
proof -
  have "(a * 16 + x) div 16 = a" "(b * 16 + y) div 16 = b" using assms(2,3) by simp_all
  with assms(1) have "a = b" by simp
  with assms(1) show ?thesis by simp
qed

lemma nibble_foldl_inj:
  "length b = length b' \<Longrightarrow>
   foldl (\<lambda>h c. h * 16 + of_char c mod 16) (h0::nat) b
     = foldl (\<lambda>h c. h * 16 + of_char c mod 16) h1 b'
   \<Longrightarrow> h0 = h1 \<and> map (\<lambda>c. of_char c mod 16 :: nat) b = map (\<lambda>c. of_char c mod 16) b'"
proof (induction b arbitrary: b' h0 h1)
  case Nil
  then show ?case by simp
next
  case (Cons c b)
  obtain c' b'' where b': "b' = c' # b''" using Cons.prems(1) by (cases b') auto
  have len: "length b = length b''" using Cons.prems(1) b' by simp
  have eq: "foldl (\<lambda>h c. h * 16 + of_char c mod 16) (h0 * 16 + of_char c mod 16) b
          = foldl (\<lambda>h c. h * 16 + of_char c mod 16) (h1 * 16 + of_char c' mod 16) b''"
    using Cons.prems(2) b' by simp
  have step: "h0 * 16 + of_char c mod 16 = h1 * 16 + of_char c' mod 16"
    and tl: "map (\<lambda>c. of_char c mod 16 :: nat) b = map (\<lambda>c. of_char c mod 16) b''"
    using Cons.IH [OF len eq] by simp_all
  have d: "(of_char c :: nat) mod 16 < 16" "(of_char c' :: nat) mod 16 < 16" by simp_all
  from step d have "h0 = h1 \<and> (of_char c :: nat) mod 16 = of_char c' mod 16"
    by (rule digit_unique)
  with tl b' show ?case by simp
qed

lemma nibble_hash_eq:
  assumes "length b = 16" "length b' = 16" "nibble_hash b = nibble_hash b'"
  shows "map (\<lambda>c. of_char c mod 16 :: nat) b = map (\<lambda>c. of_char c mod 16) b'"
proof -
  let ?n = "\<lambda>b. foldl (\<lambda>h c. h * 16 + of_char c mod 16) (0::nat) b"
  have w: "nibble_hash x = of_nat (?n x)" for x
    using nibble_foldl_of_nat [of 0 x] by (simp add: nibble_hash_def)
  have small: "?n x < 2 ^ 64" if "length x = 16" for x
    using nibble_foldl_bound [of 0 x] that by simp
  have "unat (of_nat (?n b) :: 64 word) = unat (of_nat (?n b') :: 64 word)"
    using assms(3) by (simp add: w)
  then have "?n b = ?n b'"
    using small [OF assms(1)] small [OF assms(2)] by (simp add: unat_of_nat)
  then show ?thesis using nibble_foldl_inj [of b b' 0 0] assms(1,2) by simp
qed

lemma nibble_hash_inj:
  assumes "length b = 16" "length b' = 16" "nibble_hash b = nibble_hash b'"
    and "inj_on (\<lambda>c. of_char c mod 16 :: nat) (set b \<union> set b')"
  shows "b = b'"
  using nibble_hash_eq [OF assms(1-3)] assms(4) by (rule map_inj_on)


lemma nibble_goal_unique:
  assumes "length start = 16" "length goal = 16"
    and "inj_on (\<lambda>c. of_char c mod 16 :: nat) (set start \<union> set goal)"
  shows "goal_hash_unique nibble_hash start goal"
  unfolding goal_hash_unique_def
proof (intro allI impI)
  fix b assume mb: "mset b = mset start" and eq: "nibble_hash b = nibble_hash goal"
  have "length b = 16" using mset_eq_length [OF mb] assms(1) by simp
  moreover have "set b \<union> set goal = set start \<union> set goal" using mset_eq_setD [OF mb] by simp
  ultimately show "b = goal" using eq assms(2,3) by (intro nibble_hash_inj) simp_all
qed

lemma inj_on_set_remdups: "distinct (map f (remdups xs)) \<Longrightarrow> inj_on f (set xs)"
  using distinct_map [of f "remdups xs"] by simp


lemma goal_unique_a_b: "goal_hash_unique nibble_hash board_a board_b"
proof (rule nibble_goal_unique)
  show "length board_a = 16" "length board_b = 16" by (simp_all add: board_a_def board_b_def)
  have "inj_on (\<lambda>c. of_char c mod 16 :: nat) (set (board_a @ board_b))"
    by (rule inj_on_set_remdups) (simp add: board_a_def board_b_def)
  then show "inj_on (\<lambda>c. of_char c mod 16 :: nat) (set board_a \<union> set board_b)" by simp
qed

lemma boards_after_step:
  assumes "b \<in> set (boards_after n start)" "moved_board b m = Inr (Some b')" "m \<in> set moves"
  shows "b' \<in> set (boards_after (Suc n) start)"
  unfolding boards_after_Suc_mem next_boards_mem using assms by blast

lemma valid_board_a: "valid_board board_a"
  by (simp add: valid_board_def board_a_def)

lemma board_b_after_1: "board_b \<in> set (boards_after (Suc 0) board_a)"
proof -
  have r: "RIGHT \<in> set moves" by (simp add: moves_def)
  have 0: "board_a \<in> set (boards_after 0 board_a)" by simp
  show ?thesis
    by (rule boards_after_step [OF 0 _ r])
      (simp add: moved_board_def board_a_def board_b_def std_swap_def)
qed


text \<open>
  The assumption on the hash function is needed. With \<open>pos_hash\<close> the board with the
  agent in the third cell has the hash of the start board, so the cycle check rejects the
  second step of the only three-move path along the first row; the searcher returns a
  state that holds the goal board after five moves, and the goal is three moves away.
\<close>

lemma colliding_hash_prunes_shortest_path:
  "valid_board board_e
   \<and> breadthFirst pos_hash board_e board_f
       = Some (Inr (Some (follow_moves pos_hash (root_state pos_hash board_e)
                            [RIGHT, DOWN, RIGHT, RIGHT, UP])))
   \<and> getState (follow_moves pos_hash (root_state pos_hash board_e)
                  [RIGHT, DOWN, RIGHT, RIGHT, UP]) = board_f
   \<and> move_count (follow_moves pos_hash (root_state pos_hash board_e)
                    [RIGHT, DOWN, RIGHT, RIGHT, UP]) = 5
   \<and> board_f \<in> set (boards_after 3 board_e)"
proof -
  have v: "valid_board board_e" by (simp add: valid_board_def board_e_def)
  have run: "breadthFirst pos_hash board_e board_f
       = Some (Inr (Some (follow_moves pos_hash (root_state pos_hash board_e)
                            [RIGHT, DOWN, RIGHT, RIGHT, UP])))"
    by (simp add: breadthFirst_def bfs_while.simps moves_def make_next_state_def
        moved_board_def board_e_def board_f_def root_state_def child_state_def std_swap_def
        pos_hash_def)
  have st: "getState (follow_moves pos_hash (root_state pos_hash board_e)
                  [RIGHT, DOWN, RIGHT, RIGHT, UP]) = board_f
     \<and> move_count (follow_moves pos_hash (root_state pos_hash board_e)
                    [RIGHT, DOWN, RIGHT, RIGHT, UP]) = 5"
    by (simp add: moved_board_def move_count_def board_e_def board_f_def root_state_def
        child_state_def std_swap_def)
  have r: "RIGHT \<in> set moves" by (simp add: moves_def)
  have 0: "board_e \<in> set (boards_after 0 board_e)" by simp
  have 1: "'' *              '' \<in> set (boards_after (Suc 0) board_e)"
    by (rule boards_after_step [OF 0 _ r]) (simp add: moved_board_def board_e_def std_swap_def)
  have 2: "''  *             '' \<in> set (boards_after (Suc (Suc 0)) board_e)"
    by (rule boards_after_step [OF 1 _ r]) (simp add: moved_board_def std_swap_def)
  have "board_f \<in> set (boards_after (Suc (Suc (Suc 0))) board_e)"
    by (rule boards_after_step [OF 2 _ r]) (simp add: moved_board_def std_swap_def board_f_def)
  then have 3: "board_f \<in> set (boards_after 3 board_e)" by (simp only: numeral_3_eq_3)
  from v run st 3 show ?thesis by blast
qed

lemma breadthFirst_Some:
  assumes "valid_board start" "breadthFirst make_hash start goal = Some (Inr (Some s))"
  shows "generated make_hash start s" "getHash s = make_hash goal"
proof -
  obtain d where "s \<in> set (level make_hash start d)" and h: "getHash s = make_hash goal"
    using breadthFirst_result [OF assms(1), of make_hash goal] assms(2) by auto
  then show "generated make_hash start s" by (simp add: level_generated)
  show "getHash s = make_hash goal" by (rule h)
qed

lemma aStar_Some:
  assumes "heap_algorithms push_heap pop_heap" "valid_board start"
    and "aStar make_hash out_of_range push_heap pop_heap start goal = Some (Inr (Some s))"
  shows "generated make_hash start s" "getHash s = make_hash goal"
  using aStar_result [OF assms(1,2), of make_hash out_of_range goal] assms(3) by auto

lemma printed_path:
  assumes "generated make_hash start s" "valid_board start"
  shows "hd (map getState (rev (solution s))) = start"
    and "last (map getState (rev (solution s))) = getState s"
proof -
  have ne: "solution s \<noteq> []" by (subst solution_unfold) simp
  have "last (solution s) = root_state make_hash start"
    using generated_chain_inv [OF assms] by (simp add: chain_inv_def)
  then show "hd (map getState (rev (solution s))) = start"
    using ne by (simp add: hd_map hd_rev root_state_def)
  have "hd (solution s) = s" by (subst solution_unfold) simp
  then show "last (map getState (rev (solution s))) = getState s"
    using ne by (simp add: last_map last_rev)
qed

lemma returned_state_path:
  assumes "generated make_hash start s" "valid_board start" "getHash s = make_hash goal"
  shows "print_search (Some s) = Finish (map getState (rev (solution s)))
         \<and> hd (map getState (rev (solution s))) = start
         \<and> make_hash (last (map getState (rev (solution s)))) = make_hash goal
         \<and> (goal_hash_unique make_hash start goal
              \<longrightarrow> last (map getState (rev (solution s))) = goal)"
proof -
  have h: "make_hash (getState s) = make_hash goal"
    using generated_hash(1) [OF assms(1,2)] assms(3) by simp
  have "goal_hash_unique make_hash start goal \<longrightarrow> getState s = goal"
    using h generated_hash(2) [OF assms(1,2)] unfolding goal_hash_unique_def by blast
  then show ?thesis
    unfolding printed_path [OF assms(1,2)] using h by (simp add: print_search_def)
qed

text \<open>
  Claim C2, as amended. When a searcher succeeds on a start board with exactly one agent
  marker, the printed sequence (the boards from the returned state back along the
  predecessor links, reversed) begins with the start board and ends with a board whose
  hash is the goal board's hash; that board is the goal board whenever no other
  rearrangement of the start board has the goal's hash.
\<close>

theorem reconstructed_path_ends:
  assumes "valid_board start" and "heap_algorithms push_heap pop_heap"
    and "breadthFirst make_hash start goal = Some (Inr (Some s))
         \<or> aStar make_hash out_of_range push_heap pop_heap start goal = Some (Inr (Some s))"
  shows "print_search (Some s) = Finish (map getState (rev (solution s)))
         \<and> hd (map getState (rev (solution s))) = start
         \<and> make_hash (last (map getState (rev (solution s)))) = make_hash goal
         \<and> (goal_hash_unique make_hash start goal
              \<longrightarrow> last (map getState (rev (solution s))) = goal)"
proof -
  have "generated make_hash start s \<and> getHash s = make_hash goal"
    using assms(3) breadthFirst_Some [OF assms(1)] aStar_Some [OF assms(2,1)] by blast
  then show ?thesis using assms(1) by (intro returned_state_path) simp_all
qed

theorem reconstructed_path_ends_witness:
  "valid_board board_a \<and> heap_algorithms sort_push_heap sort_pop_heap
   \<and> breadthFirst nibble_hash board_a board_b = Some (Inr (Some state_b))
   \<and> goal_hash_unique nibble_hash board_a board_b
   \<and> print_search (Some state_b) = Finish [board_a, board_b]
   \<and> hd [board_a, board_b] = board_a \<and> last [board_a, board_b] = board_b"
proof -
  have "breadthFirst nibble_hash board_a board_b = Some (Inr (Some state_b))
         \<or> aStar nibble_hash zero_conversion sort_push_heap sort_pop_heap board_a board_b
              = Some (Inr (Some state_b))"
    using breadthFirst_a_b by simp
  from reconstructed_path_ends [OF valid_board_a sort_heap_algorithms this]
  show ?thesis
    using valid_board_a sort_heap_algorithms breadthFirst_a_b goal_unique_a_b
    by (simp add: state_b_def child_state_def root_state_def)
qed

text \<open>
  Claim C2 as stated fails: \<open>sum_hash\<close> gives \<open>board_a\<close> and \<open>board_b\<close> the same
  hash, the breadth-first searcher returns the root at once, and the printed sequence
  ends with \<open>board_a\<close>, not with the goal \<open>board_b\<close>.
\<close>

theorem colliding_goal_path_counterexample:
  "valid_board board_a
   \<and> breadthFirst sum_hash board_a board_b = Some (Inr (Some (root_state sum_hash board_a)))
   \<and> print_search (Some (root_state sum_hash board_a)) = Finish [board_a]
   \<and> last [board_a] \<noteq> board_b"
  by (simp add: valid_board_def breadthFirst_def root_state_def print_search_def
      board_a_def board_b_def sum_hash_def)

lemma breadthFirst_None_iff:
  assumes "valid_board start"
  shows "breadthFirst make_hash start goal = Some (Inr None)
           \<longleftrightarrow> (\<forall>c. generated make_hash start c \<longrightarrow> getHash c \<noteq> make_hash goal)"
proof
  assume none: "breadthFirst make_hash start goal = Some (Inr None)"
  then have all: "\<forall>n. \<forall>t \<in> set (level make_hash start n). getHash t \<noteq> make_hash goal"
    using breadthFirst_result [OF assms, of make_hash goal] by auto
  show "\<forall>c. generated make_hash start c \<longrightarrow> getHash c \<noteq> make_hash goal"
  proof (intro allI impI)
    fix c assume "generated make_hash start c"
    then have "c \<in> set (level make_hash start (move_count c))" by (rule generated_level)
    with all show "getHash c \<noteq> make_hash goal" by blast
  qed
next
  assume all: "\<forall>c. generated make_hash start c \<longrightarrow> getHash c \<noteq> make_hash goal"
  obtain r where r: "breadthFirst make_hash start goal = Some (Inr r)"
    using breadthFirst_result [OF assms, of make_hash goal] by blast
  show "breadthFirst make_hash start goal = Some (Inr None)"
  proof (cases r)
    case None
    with r show ?thesis by simp
  next
    case (Some s)
    then show ?thesis using all breadthFirst_Some [OF assms, of make_hash goal s] r by blast
  qed
qed

lemma aStar_None_iff:
  assumes "heap_algorithms push_heap pop_heap" "valid_board start"
  shows "aStar make_hash out_of_range push_heap pop_heap start goal = Some (Inr None)
           \<longleftrightarrow> (\<forall>c. generated make_hash start c \<longrightarrow> getHash c \<noteq> make_hash goal)"
proof
  assume "aStar make_hash out_of_range push_heap pop_heap start goal = Some (Inr None)"
  then show "\<forall>c. generated make_hash start c \<longrightarrow> getHash c \<noteq> make_hash goal"
    using aStar_None [OF assms] by blast
next
  assume all: "\<forall>c. generated make_hash start c \<longrightarrow> getHash c \<noteq> make_hash goal"
  obtain r where r: "aStar make_hash out_of_range push_heap pop_heap start goal = Some (Inr r)"
    using aStar_result [OF assms, of make_hash out_of_range goal] by blast
  show "aStar make_hash out_of_range push_heap pop_heap start goal = Some (Inr None)"
  proof (cases r)
    case None
    with r show ?thesis by simp
  next
    case (Some s)
    then show ?thesis
      using all aStar_Some [OF assms, of make_hash out_of_range goal s] r by blast
  qed
qed

lemma bfs_for_return:
  assumes "\<forall>m \<in> set ms. \<exists>r. make_next_state make_hash p m = Inr r"
  shows "bfs_for make_hash goalHash p ms search = Inr (Return c)
           \<longleftrightarrow> find (\<lambda>c. getHash c = goalHash) (successors make_hash p ms) = Some c"
  unfolding bfs_for_eq [OF assms] by (simp split: option.splits)

text \<open>
  Claim C3, as amended. The cached hash decides the cycle rejection and also the goal
  test, and no board contents are compared. Each searcher reports that there is no
  solution exactly when no state that the move generator can produce from the start has
  the cached hash of the goal board; a state that a searcher returns is such a state, and
  its cached hash is the hash of its own board. A pass of either search loop over the
  four moves returns exactly the first successor whose cached hash is the goal's hash.
  Two goal boards with the same hash cannot be told apart: the breadth-first searcher
  returns the same result for both, and the A* searcher fails on both or on neither.
\<close>

theorem goal_test_by_hash:
  assumes "valid_board start" and "heap_algorithms push_heap pop_heap"
  shows "(breadthFirst make_hash start goal = Some (Inr None)
            \<longleftrightarrow> (\<forall>c. generated make_hash start c \<longrightarrow> getHash c \<noteq> make_hash goal))
         \<and> (aStar make_hash out_of_range push_heap pop_heap start goal = Some (Inr None)
            \<longleftrightarrow> (\<forall>c. generated make_hash start c \<longrightarrow> getHash c \<noteq> make_hash goal))
         \<and> (breadthFirst make_hash start goal = Some (Inr (Some s))
            \<longrightarrow> generated make_hash start s \<and> getHash s = make_hash goal
                \<and> getHash s = make_hash (getState s))
         \<and> (aStar make_hash out_of_range push_heap pop_heap start goal = Some (Inr (Some t))
            \<longrightarrow> generated make_hash start t \<and> getHash t = make_hash goal
                \<and> getHash t = make_hash (getState t))
         \<and> (generated make_hash start p
            \<longrightarrow> (bfs_for make_hash goalHash p moves frontier = Inr (Return c)
                   \<longleftrightarrow> find (\<lambda>c. getHash c = goalHash) (successors make_hash p moves) = Some c)
                \<and> (astar_for make_hash out_of_range push_heap goal goalHash p moves queue
                      = Inr (Return c)
                   \<longleftrightarrow> find (\<lambda>c. getHash c = goalHash) (successors make_hash p moves) = Some c))
         \<and> (make_hash goal' = make_hash goal
            \<longrightarrow> breadthFirst make_hash start goal' = breadthFirst make_hash start goal
                \<and> (aStar make_hash out_of_range push_heap pop_heap start goal' = Some (Inr None)
                   \<longleftrightarrow> aStar make_hash out_of_range push_heap pop_heap start goal
                         = Some (Inr None)))"
proof (intro conjI impI)
  show "breadthFirst make_hash start goal = Some (Inr None)
          \<longleftrightarrow> (\<forall>c. generated make_hash start c \<longrightarrow> getHash c \<noteq> make_hash goal)"
    using assms(1) by (rule breadthFirst_None_iff)
  show "aStar make_hash out_of_range push_heap pop_heap start goal = Some (Inr None)
          \<longleftrightarrow> (\<forall>c. generated make_hash start c \<longrightarrow> getHash c \<noteq> make_hash goal)"
    using assms(2,1) by (rule aStar_None_iff)
next
  assume b: "breadthFirst make_hash start goal = Some (Inr (Some s))"
  show g: "generated make_hash start s" using assms(1) b by (rule breadthFirst_Some(1))
  show "getHash s = make_hash goal" using assms(1) b by (rule breadthFirst_Some(2))
  show "getHash s = make_hash (getState s)" using g assms(1) by (rule generated_hash(1))
next
  assume a: "aStar make_hash out_of_range push_heap pop_heap start goal = Some (Inr (Some t))"
  show g: "generated make_hash start t" using assms(2,1) a by (rule aStar_Some(1))
  show "getHash t = make_hash goal" using assms(2,1) a by (rule aStar_Some(2))
  show "getHash t = make_hash (getState t)" using g assms(1) by (rule generated_hash(1))
next
  assume "generated make_hash start p"
  then have "valid_board (getState p)" using assms(1) by (rule generated_valid)
  then have ne: "\<forall>m \<in> set moves. \<exists>r. make_next_state make_hash p m = Inr r"
    by (auto intro: make_next_state_no_error)
  show "bfs_for make_hash goalHash p moves frontier = Inr (Return c)
          \<longleftrightarrow> find (\<lambda>c. getHash c = goalHash) (successors make_hash p moves) = Some c"
    using ne by (rule bfs_for_return)
  show "astar_for make_hash out_of_range push_heap goal goalHash p moves queue = Inr (Return c)
          \<longleftrightarrow> find (\<lambda>c. getHash c = goalHash) (successors make_hash p moves) = Some c"
    using ne by (rule astar_for_return)
next
  assume eq: "make_hash goal' = make_hash goal"
  then show "breadthFirst make_hash start goal' = breadthFirst make_hash start goal"
    by (simp add: breadthFirst_def)
  show "aStar make_hash out_of_range push_heap pop_heap start goal' = Some (Inr None)
          \<longleftrightarrow> aStar make_hash out_of_range push_heap pop_heap start goal = Some (Inr None)"
    unfolding aStar_None_iff [OF assms(2,1)] eq ..
qed

theorem goal_test_by_hash_witness:
  "valid_board board_a \<and> heap_algorithms sort_push_heap sort_pop_heap
   \<and> breadthFirst nibble_hash board_a board_b = Some (Inr (Some state_b))
   \<and> aStar nibble_hash zero_conversion sort_push_heap sort_pop_heap board_a board_b
        = Some (Inr (Some state_b))
   \<and> generated nibble_hash board_a state_b
   \<and> getHash state_b = nibble_hash board_b
   \<and> generated nibble_hash board_a (root_state nibble_hash board_a)
   \<and> bfs_for nibble_hash (nibble_hash board_b) (root_state nibble_hash board_a) moves []
        = Inr (Return state_b)
   \<and> find (\<lambda>c. getHash c = nibble_hash board_b)
        (successors nibble_hash (root_state nibble_hash board_a) moves) = Some state_b
   \<and> sum_hash board_a = sum_hash board_b
   \<and> breadthFirst sum_hash board_a board_a = breadthFirst sum_hash board_a board_b"
proof -
  have c: "sum_hash board_a = sum_hash board_b"
    by (simp add: sum_hash_def board_a_def board_b_def)
  have r: "generated nibble_hash board_a (root_state nibble_hash board_a)"
    by (rule generated.root)
  have pass: "bfs_for nibble_hash (nibble_hash board_b) (root_state nibble_hash board_a) moves []
        = Inr (Return state_b)"
    by (simp add: moves_def make_next_state_def moved_board_def board_a_def board_b_def
        state_b_def root_state_def child_state_def std_swap_def nibble_hash_def)
  note first = goal_test_by_hash [OF valid_board_a sort_heap_algorithms,
      where make_hash = nibble_hash and goal = board_b and s = state_b and t = state_b
        and out_of_range = zero_conversion and p = "root_state nibble_hash board_a"
        and goalHash = "nibble_hash board_b" and frontier = "[]" and queue = "[]"
        and c = state_b and goal' = board_b]
  note second = goal_test_by_hash [OF valid_board_a sort_heap_algorithms,
      where make_hash = sum_hash and goal = board_b and s = state_b and t = state_b
        and out_of_range = zero_conversion and p = "root_state sum_hash board_a"
        and goalHash = "sum_hash board_b" and frontier = "[]" and queue = "[]"
        and c = state_b and goal' = board_a]
  have g: "generated nibble_hash board_a state_b \<and> getHash state_b = nibble_hash board_b"
    using first breadthFirst_a_b by simp
  have f: "find (\<lambda>c. getHash c = nibble_hash board_b)
        (successors nibble_hash (root_state nibble_hash board_a) moves) = Some state_b"
    using first r pass by simp
  have i: "breadthFirst sum_hash board_a board_a = breadthFirst sum_hash board_a board_b"
    using second c by simp
  from valid_board_a sort_heap_algorithms breadthFirst_a_b aStar_a_b g r pass f c i
  show ?thesis by simp
qed

text \<open>
  Claim C3 as stated fails: were the goal decided by the board contents, a returned state
  would hold the goal board. \<open>pos_hash\<close> gives the start \<open>board_a\<close> and the goal
  \<open>board_g\<close> different hashes, and gives \<open>board_g\<close> the hash of \<open>board_b\<close>: the
  first pass of the loop of either searcher returns the successor that holds
  \<open>board_b\<close>.
\<close>

theorem goal_matched_by_hash_counterexample:
  "valid_board board_a \<and> valid_board board_g
   \<and> heap_algorithms sort_push_heap sort_pop_heap
   \<and> pos_hash board_a \<noteq> pos_hash board_g
   \<and> breadthFirst pos_hash board_a board_g
        = Some (Inr (Some (child_state pos_hash (root_state pos_hash board_a) board_b)))
   \<and> aStar pos_hash zero_conversion sort_push_heap sort_pop_heap board_a board_g
        = Some (Inr (Some (child_state pos_hash (root_state pos_hash board_a) board_b)))
   \<and> getHash (child_state pos_hash (root_state pos_hash board_a) board_b) = pos_hash board_g
   \<and> getState (child_state pos_hash (root_state pos_hash board_a) board_b) \<noteq> board_g"
proof -
  have v: "valid_board board_g" by (simp add: valid_board_def board_g_def)
  have ne: "pos_hash board_a \<noteq> pos_hash board_g"
    by (simp add: pos_hash_def board_a_def board_g_def)
  have b: "breadthFirst pos_hash board_a board_g
        = Some (Inr (Some (child_state pos_hash (root_state pos_hash board_a) board_b)))"
    by (simp add: breadthFirst_def bfs_while.simps moves_def make_next_state_def
        moved_board_def board_a_def board_b_def board_g_def root_state_def child_state_def
        std_swap_def pos_hash_def)
  have a: "aStar pos_hash zero_conversion sort_push_heap sort_pop_heap board_a board_g
        = Some (Inr (Some (child_state pos_hash (root_state pos_hash board_a) board_b)))"
    by (simp add: aStar_def astar_while.simps pq_push_def pq_pop_def sort_push_heap_def
        sort_pop_heap_def moves_def make_next_state_def moved_board_def
        board_a_def board_b_def board_g_def root_state_def child_state_def std_swap_def
        pos_hash_def)
  have s: "getHash (child_state pos_hash (root_state pos_hash board_a) board_b)
             = pos_hash board_g
     \<and> getState (child_state pos_hash (root_state pos_hash board_a) board_b) \<noteq> board_g"
    by (simp add: child_state_def pos_hash_def board_b_def board_g_def)
  from valid_board_a v sort_heap_algorithms ne b a s show ?thesis by simp
qed

text \<open>
  Claim C7, as amended. On a start board with exactly one agent marker both searchers
  terminate for every goal board and every hash function; when the goal is unreachable
  and no rearrangement of the start board has the goal's hash, both return the
  no-solution result.
\<close>

theorem searchers_terminate:
  assumes "valid_board start" and "heap_algorithms push_heap pop_heap"
  shows "(\<exists>r. breadthFirst make_hash start goal = Some (Inr r))
         \<and> (\<exists>r. aStar make_hash out_of_range push_heap pop_heap start goal = Some (Inr r))
         \<and> ((\<forall>n. goal \<notin> set (boards_after n start)) \<and> goal_hash_unique make_hash start goal
              \<longrightarrow> breadthFirst make_hash start goal = Some (Inr None)
                  \<and> aStar make_hash out_of_range push_heap pop_heap start goal = Some (Inr None))"
proof (intro conjI impI)
  obtain rb where rb: "breadthFirst make_hash start goal = Some (Inr rb)"
    using breadthFirst_result [OF assms(1), of make_hash goal] by blast
  obtain ra where ra: "aStar make_hash out_of_range push_heap pop_heap start goal = Some (Inr ra)"
    using aStar_result [OF assms(2,1), of make_hash out_of_range goal] by blast
  show "\<exists>r. breadthFirst make_hash start goal = Some (Inr r)" using rb by blast
  show "\<exists>r. aStar make_hash out_of_range push_heap pop_heap start goal = Some (Inr r)" using ra by blast
  assume u: "(\<forall>n. goal \<notin> set (boards_after n start)) \<and> goal_hash_unique make_hash start goal"
  have none: False if g: "generated make_hash start s" and h: "getHash s = make_hash goal" for s
  proof -
    have "make_hash (getState s) = make_hash goal"
      using generated_hash(1) [OF g assms(1)] h by simp
    then have "getState s = goal"
      using u generated_hash(2) [OF g assms(1)] unfolding goal_hash_unique_def by blast
    then have "goal \<in> set (boards_after (move_count s) start)"
      using generated_boards_after [OF g] by simp
    with u show False by blast
  qed
  show "breadthFirst make_hash start goal = Some (Inr None)"
  proof (cases rb)
    case None
    with rb show ?thesis by simp
  next
    case (Some s)
    then show ?thesis using none breadthFirst_Some [OF assms(1), of make_hash goal s] rb by simp
  qed
  show "aStar make_hash out_of_range push_heap pop_heap start goal = Some (Inr None)"
  proof (cases ra)
    case None
    with ra show ?thesis by simp
  next
    case (Some s)
    then show ?thesis
      using none aStar_Some [OF assms(2,1), of make_hash out_of_range goal s] ra by simp
  qed
qed

lemma unreachable_by_symbol:
  assumes "c \<in> set goal" "c \<notin> set start"
  shows "goal \<notin> set (boards_after n start)"
proof
  assume "goal \<in> set (boards_after n start)"
  then have "set goal = set start" using boards_after_mset mset_eq_setD by blast
  with assms show False by simp
qed

theorem searchers_terminate_witness:
  "valid_board board_a \<and> heap_algorithms sort_push_heap sort_pop_heap
   \<and> (\<forall>n. board_c \<notin> set (boards_after n board_a))
   \<and> goal_hash_unique nibble_hash board_a board_c
   \<and> breadthFirst nibble_hash board_a board_c = Some (Inr None)
   \<and> aStar nibble_hash zero_conversion sort_push_heap sort_pop_heap board_a board_c = Some (Inr None)"
proof -
  have u: "\<forall>n. board_c \<notin> set (boards_after n board_a)"
    by (intro allI unreachable_by_symbol [of "CHR ''b''"]) (simp_all add: board_a_def board_c_def)
  have g: "goal_hash_unique nibble_hash board_a board_c"
  proof (rule nibble_goal_unique)
    show "length board_a = 16" "length board_c = 16"
      by (simp_all add: board_a_def board_c_def)
    have "inj_on (\<lambda>c. of_char c mod 16 :: nat) (set (board_a @ board_c))"
      by (rule inj_on_set_remdups) (simp add: board_a_def board_c_def)
    then show "inj_on (\<lambda>c. of_char c mod 16 :: nat) (set board_a \<union> set board_c)" by simp
  qed
  show ?thesis
    using valid_board_a sort_heap_algorithms u g
      searchers_terminate [OF valid_board_a sort_heap_algorithms,
        where make_hash = nibble_hash and goal = board_c and out_of_range = zero_conversion]
    by blast
qed

text \<open>
  Claim C7 as stated fails: \<open>board_d\<close> cannot be reached from \<open>board_a\<close>, and with
  \<open>sum_hash\<close>, which gives both boards the same hash, both searchers return the root
  state instead of the no-solution result.
\<close>

theorem unreachable_goal_found_counterexample:
  "valid_board board_a \<and> (\<forall>n. board_d \<notin> set (boards_after n board_a))
   \<and> breadthFirst sum_hash board_a board_d = Some (Inr (Some (root_state sum_hash board_a)))
   \<and> aStar sum_hash zero_conversion sort_push_heap sort_pop_heap board_a board_d
        = Some (Inr (Some (root_state sum_hash board_a)))"
proof -
  have u: "\<forall>n. board_d \<notin> set (boards_after n board_a)"
    by (intro allI unreachable_by_symbol [of "CHR ''A''"]) (simp_all add: board_a_def board_d_def)
  have "breadthFirst sum_hash board_a board_d = Some (Inr (Some (root_state sum_hash board_a)))
   \<and> aStar sum_hash zero_conversion sort_push_heap sort_pop_heap board_a board_d
        = Some (Inr (Some (root_state sum_hash board_a)))"
    by (simp add: breadthFirst_def aStar_def root_state_def board_a_def board_d_def sum_hash_def)
  with valid_board_a u show ?thesis by blast
qed

section \<open>Every 64-bit hash function has collisions\<close>

text \<open>
  There are more sets of 15 characters than 64-bit values, so whatever function
  \<^verbatim>\<open>std::hash\<close> is, two boards with exactly one agent marker and different sets of
  symbols share a hash. Started on one with the other as goal, both searchers return
  the root although the goal cannot be reached.
\<close>

lemma fact_lower: "fact m * (m + 1) ^ k \<le> (fact (m + k) :: nat)"
proof (induction k)
  case 0
  then show ?case by simp
next
  case (Suc k)
  have "fact m * (m + 1) ^ Suc k = (m + 1) * (fact m * (m + 1) ^ k)"
    by (simp add: algebra_simps)
  also have "\<dots> \<le> (m + Suc k) * fact (m + k)"
    using Suc.IH by (intro mult_mono) simp_all
  also have "\<dots> = fact (m + Suc k)" by simp
  finally show ?case .
qed

lemma choose_lower: "(m + 1) ^ k \<le> fact k * ((m + k) choose k)"
proof -
  have "fact k * fact m * ((m + k) choose k) = (fact (m + k) :: nat)"
    using binomial_fact_lemma [of k "m + k"] by simp
  then have "fact m * (m + 1) ^ k \<le> fact m * (fact k * ((m + k) choose k))"
    using fact_lower [of m k] by (simp add: mult_ac)
  then show ?thesis by simp
qed

lemma choose_big: "(2::nat) ^ 64 < 255 choose 15"
proof -
  have "(241::nat) ^ 15 \<le> fact 15 * (255 choose 15)"
    using choose_lower [of 240 15] by simp
  moreover have "fact 15 * (2::nat) ^ 64 < 241 ^ 15" by (simp add: fact_numeral)
  ultimately have "fact 15 * (2::nat) ^ 64 < fact 15 * (255 choose 15)" by linarith
  then show ?thesis by simp
qed

lemma agent_then_board:
  assumes "CHR ''*'' \<notin> S" "card S = 15"
  shows "set (agent_then S) = insert (CHR ''*'') S" "valid_board (agent_then S)"
proof -
  have "finite S" by simp
  then have ex: "\<exists>xs. set xs = S \<and> distinct xs" by (rule finite_distinct_list)
  define xs where "xs = (SOME xs. set xs = S \<and> distinct xs)"
  have "set xs = S \<and> distinct xs" unfolding xs_def using ex by (rule someI_ex)
  then have sx: "set xs = S" and dx: "distinct xs" by simp_all
  have len: "length xs = 15" using distinct_card [OF dx] sx assms(2) by simp
  have cnt: "count_list xs (CHR ''*'') = 0" using assms(1) sx by (simp add: count_list_0_iff)
  have a: "agent_then S = CHR ''*'' # xs" by (simp add: agent_then_def xs_def)
  show "set (agent_then S) = insert (CHR ''*'') S" unfolding a using sx by simp
  show "valid_board (agent_then S)" unfolding a valid_board_def using len cnt by simp
qed

lemma every_hash_collides:
  fixes make_hash :: "Board \<Rightarrow> 64 word"
  shows "\<exists>start goal. valid_board start \<and> valid_board goal \<and> set start \<noteq> set goal
           \<and> make_hash start = make_hash goal"
proof -
  define A :: "char set" where "A = UNIV - {CHR ''*''}"
  define F where "F = {S. S \<subseteq> A \<and> card S = 15}"
  have "card A = card (UNIV :: char set) - 1"
    unfolding A_def by (rule card_Diff_singleton) simp
  then have cardA: "card A = 255" by (simp add: card_UNIV_char)
  have finA: "finite A" by simp
  have cardF: "card F = 255 choose 15" unfolding F_def n_subsets [OF finA] cardA ..
  have "card ((\<lambda>S. make_hash (agent_then S)) ` F) \<le> card (UNIV :: 64 word set)"
    by (rule card_mono) simp_all
  also have "\<dots> = 2 ^ 64" by (simp add: card_word)
  also have "\<dots> < card F" unfolding cardF by (rule choose_big)
  finally have "\<not> inj_on (\<lambda>S. make_hash (agent_then S)) F" by (rule pigeonhole)
  then obtain S T where S: "S \<in> F" and T: "T \<in> F" and ne: "S \<noteq> T"
    and eq: "make_hash (agent_then S) = make_hash (agent_then T)"
    unfolding inj_on_def by blast
  have sS: "CHR ''*'' \<notin> S" "card S = 15" using S by (auto simp: F_def A_def)
  have sT: "CHR ''*'' \<notin> T" "card T = 15" using T by (auto simp: F_def A_def)
  have "set (agent_then S) \<noteq> set (agent_then T)"
  proof
    assume "set (agent_then S) = set (agent_then T)"
    then have "insert (CHR ''*'') S = insert (CHR ''*'') T"
      unfolding agent_then_board(1) [OF sS] agent_then_board(1) [OF sT] .
    with sS(1) sT(1) have "S = T" by (simp add: insert_ident)
    with ne show False by simp
  qed
  with agent_then_board(2) [OF sS] agent_then_board(2) [OF sT] eq show ?thesis
    by (intro exI [of _ "agent_then S"] exI [of _ "agent_then T"]) simp
qed

lemma every_hash_fails:
  fixes make_hash :: "Board \<Rightarrow> 64 word"
  shows "\<exists>start goal. valid_board start \<and> valid_board goal
           \<and> (\<forall>n. goal \<notin> set (boards_after n start))
           \<and> breadthFirst make_hash start goal = Some (Inr (Some (root_state make_hash start)))
           \<and> (\<forall>out_of_range push_heap pop_heap.
                 aStar make_hash out_of_range push_heap pop_heap start goal
                   = Some (Inr (Some (root_state make_hash start))))
           \<and> getState (root_state make_hash start) \<noteq> goal"
proof -
  obtain start goal where v: "valid_board start" "valid_board goal"
    and ne: "set start \<noteq> set goal" and eq: "make_hash start = make_hash goal"
    using every_hash_collides [of make_hash] by blast
  have "goal \<notin> set (boards_after n start)" for n
    using boards_after_mset [of goal n start] mset_eq_setD [of goal start] ne by blast
  moreover have "breadthFirst make_hash start goal
                   = Some (Inr (Some (root_state make_hash start)))"
    using eq by (simp add: breadthFirst_def root_state_def)
  moreover have "\<forall>out_of_range push_heap pop_heap.
                   aStar make_hash out_of_range push_heap pop_heap start goal
                     = Some (Inr (Some (root_state make_hash start)))"
    using eq by (simp add: aStar_def root_state_def)
  moreover have "getState (root_state make_hash start) \<noteq> goal"
    using ne by (auto simp: root_state_def)
  ultimately show ?thesis using v by blast
qed

section \<open>The board invariant along the search\<close>

text \<open>
  Claim C9. A successor that the move generator produces from a board with exactly one
  agent marker has a board with exactly one agent marker and the same multiset of cell
  symbols; hence every board on the predecessor chain of every state generated from such
  a start board (the states of any frontier and of any returned solution) has exactly
  one agent marker and the multiset of cell symbols of the start board.
\<close>

theorem successors_keep_cells:
  "(valid_board (getState s) \<and> make_next_state make_hash s m = Inr (Some c)
      \<longrightarrow> valid_board (getState c) \<and> mset (getState c) = mset (getState s))
   \<and> (valid_board start \<and> generated make_hash start t
      \<longrightarrow> (\<forall>a \<in> set (solution t). valid_board (getState a) \<and> mset (getState a) = mset start))
   \<and> (valid_board start \<and> heap_algorithms push_heap pop_heap
        \<and> (breadthFirst make_hash start goal = Some (Inr (Some r))
             \<or> aStar make_hash out_of_range push_heap pop_heap start goal = Some (Inr (Some r)))
      \<longrightarrow> generated make_hash start r)"
proof (intro conjI impI)
  assume a: "valid_board (getState s) \<and> make_next_state make_hash s m = Inr (Some c)"
  then have eq: "mset (getState c) = mset (getState s)"
    using make_next_state_mset [of make_hash s m c] by simp
  then show "mset (getState c) = mset (getState s)" .
  from a eq show "valid_board (getState c)" by (auto intro: valid_board_mset)
next
  assume a: "valid_board start \<and> generated make_hash start t"
  then have "chain_inv make_hash start t" by (simp add: generated_chain_inv)
  then have "\<forall>a \<in> set (solution t). mset (getState a) = mset start"
    by (simp add: chain_inv_def)
  with a show "\<forall>a \<in> set (solution t). valid_board (getState a) \<and> mset (getState a) = mset start"
    by (auto intro: valid_board_mset)
next
  assume a: "valid_board start \<and> heap_algorithms push_heap pop_heap
        \<and> (breadthFirst make_hash start goal = Some (Inr (Some r))
             \<or> aStar make_hash out_of_range push_heap pop_heap start goal = Some (Inr (Some r)))"
  then have v: "valid_board start" and h: "heap_algorithms push_heap pop_heap" by simp_all
  from a show "generated make_hash start r"
    using breadthFirst_Some(1) [OF v] aStar_Some(1) [OF h v] by blast
qed

theorem successors_keep_cells_witness:
  "valid_board board_a
   \<and> make_next_state nibble_hash (root_state nibble_hash board_a) RIGHT = Inr (Some state_b)
   \<and> heap_algorithms sort_push_heap sort_pop_heap
   \<and> breadthFirst nibble_hash board_a board_b = Some (Inr (Some state_b))
   \<and> generated nibble_hash board_a state_b
   \<and> valid_board board_b \<and> mset board_b = mset board_a"
proof -
  have n: "make_next_state nibble_hash (root_state nibble_hash board_a) RIGHT
             = Inr (Some state_b)"
    by (simp add: make_next_state_def moved_board_def root_state_def child_state_def
        board_a_def board_b_def std_swap_def state_b_def)
  show ?thesis
    using valid_board_a n sort_heap_algorithms breadthFirst_a_b
      successors_keep_cells [where s = "root_state nibble_hash board_a"
        and make_hash = nibble_hash and m = RIGHT and c = state_b and start = board_a
        and t = state_b and push_heap = sort_push_heap and pop_heap = sort_pop_heap
        and goal = board_b and r = state_b and out_of_range = zero_conversion]
    by (simp add: root_state_def child_state_def state_b_def)
qed

end
